theory Spec2Isabelle
  imports Complex_Main "HOL-Library.Multiset"
begin

section \<open>The sampling pipeline of sample/sample.go\<close>

text \<open>
  The package turns a vector of scores (logits) into a selected token index by
  threading the vector through a list of samplers.  Every sampler works on
  \<^verbatim>\<open>[]float64\<close>; the value NaN marks a position as excluded.
\<close>

subsection \<open>float64\<close>

text \<open>
  A float64 is NaN, an infinity or a finite number.  Comparisons are exact and follow
  IEEE 754 (every ordered comparison with NaN is false).  The two zeros compare equal
  and are one value here; the only divisors of the package are a sum of exponentials
  and the clamped temperature, neither of which is a negative zero.

  Arithmetic on finite operands rounds: the rounding of the exact result is the field
  \<open>rnd\<close> of the platform record below, so every theorem that does not constrain
  \<open>rnd\<close> holds for whatever rounding (and overflow to an infinity) the machine
  performs.  The special values follow IEEE 754.
\<close>

datatype f64 = NaN | NInf | Fin real | PInf

text \<open>
  What the package takes from outside its own file:
  \<^item> \<open>rnd\<close>: the rounding of an exact finite result to a float64;
  \<^item> \<open>expf\<close>: \<^verbatim>\<open>math.Exp\<close> on a finite argument;
  \<^item> \<open>SortFunc\<close>: \<^verbatim>\<open>slices.SortFunc\<close> on a slice of indices (an unstable sort:
    the order it gives to elements that compare equal is its own);
  \<^item> \<open>Take\<close>: \<^verbatim>\<open>sampleuv.NewWeighted(w, nil).Take()\<close>, the random draw over the
    weights \<open>w\<close>.
\<close>

datatype draw =
    Drawn nat  \<comment> \<open>\<^verbatim>\<open>(v, true)\<close>\<close>
  | NoDraw     \<comment> \<open>\<^verbatim>\<open>(-1, false)\<close>\<close>
  | DrawPanic  \<comment> \<open>the library panicked\<close>

record lib =
  rnd :: "real \<Rightarrow> f64"
  expf :: "real \<Rightarrow> f64"
  SortFunc :: "(nat \<Rightarrow> nat \<Rightarrow> int) \<Rightarrow> nat list \<Rightarrow> nat list"
  Take :: "f64 list \<Rightarrow> draw"

definition isNaN :: "f64 \<Rightarrow> bool" where
  \<comment> \<open>\<^verbatim>\<open>math.IsNaN\<close>\<close>
  "isNaN x = (x = NaN)"

fun flt :: "f64 \<Rightarrow> f64 \<Rightarrow> bool" where
  \<comment> \<open>\<^verbatim>\<open>x < y\<close> on float64\<close>
  "flt NaN y = False"
| "flt x NaN = False"
| "flt x NInf = False"
| "flt NInf y = True"
| "flt PInf y = False"
| "flt (Fin a) PInf = True"
| "flt (Fin a) (Fin b) = (a < b)"

definition fle :: "f64 \<Rightarrow> f64 \<Rightarrow> bool" where
  \<comment> \<open>\<^verbatim>\<open>x <= y\<close> on float64\<close>
  "fle x y = (flt x y \<or> (x \<noteq> NaN \<and> x = y))"

definition fgt :: "f64 \<Rightarrow> f64 \<Rightarrow> bool" where
  \<comment> \<open>\<^verbatim>\<open>x > y\<close> on float64\<close>
  "fgt x y = flt y x"

definition fge :: "f64 \<Rightarrow> f64 \<Rightarrow> bool" where
  \<comment> \<open>\<^verbatim>\<open>x >= y\<close> on float64\<close>
  "fge x y = fle y x"

fun fadd :: "lib \<Rightarrow> f64 \<Rightarrow> f64 \<Rightarrow> f64" where
  "fadd L NaN y = NaN"
| "fadd L x NaN = NaN"
| "fadd L PInf NInf = NaN"
| "fadd L NInf PInf = NaN"
| "fadd L PInf y = PInf"
| "fadd L x PInf = PInf"
| "fadd L NInf y = NInf"
| "fadd L x NInf = NInf"
| "fadd L (Fin a) (Fin b) = rnd L (a + b)"

fun fsub :: "lib \<Rightarrow> f64 \<Rightarrow> f64 \<Rightarrow> f64" where
  "fsub L NaN y = NaN"
| "fsub L x NaN = NaN"
| "fsub L PInf PInf = NaN"
| "fsub L NInf NInf = NaN"
| "fsub L PInf y = PInf"
| "fsub L x NInf = PInf"
| "fsub L NInf y = NInf"
| "fsub L x PInf = NInf"
| "fsub L (Fin a) (Fin b) = rnd L (a - b)"

definition inf_of_sign :: "bool \<Rightarrow> f64" where
  "inf_of_sign positive = (if positive then PInf else NInf)"

fun fmul :: "lib \<Rightarrow> f64 \<Rightarrow> f64 \<Rightarrow> f64" where
  "fmul L NaN y = NaN"
| "fmul L x NaN = NaN"
| "fmul L PInf PInf = PInf"
| "fmul L PInf NInf = NInf"
| "fmul L NInf PInf = NInf"
| "fmul L NInf NInf = PInf"
| "fmul L PInf (Fin b) = (if b = 0 then NaN else inf_of_sign (0 < b))"
| "fmul L NInf (Fin b) = (if b = 0 then NaN else inf_of_sign (b < 0))"
| "fmul L (Fin a) PInf = (if a = 0 then NaN else inf_of_sign (0 < a))"
| "fmul L (Fin a) NInf = (if a = 0 then NaN else inf_of_sign (a < 0))"
| "fmul L (Fin a) (Fin b) = rnd L (a * b)"

fun fdiv :: "lib \<Rightarrow> f64 \<Rightarrow> f64 \<Rightarrow> f64" where
  "fdiv L NaN y = NaN"
| "fdiv L x NaN = NaN"
| "fdiv L PInf PInf = NaN"
| "fdiv L PInf NInf = NaN"
| "fdiv L NInf PInf = NaN"
| "fdiv L NInf NInf = NaN"
| "fdiv L PInf (Fin b) = inf_of_sign (0 \<le> b)"
| "fdiv L NInf (Fin b) = inf_of_sign (b < 0)"
| "fdiv L (Fin a) PInf = Fin 0"
| "fdiv L (Fin a) NInf = Fin 0"
| "fdiv L (Fin a) (Fin b) =
     (if b = 0 then (if a = 0 then NaN else inf_of_sign (0 < a)) else rnd L (a / b))"

fun fexp :: "lib \<Rightarrow> f64 \<Rightarrow> f64" where
  \<comment> \<open>\<^verbatim>\<open>math.Exp\<close>: Exp(+Inf) = +Inf, Exp(NaN) = NaN, Exp(-Inf) = 0\<close>
  "fexp L NaN = NaN"
| "fexp L PInf = PInf"
| "fexp L NInf = Fin 0"
| "fexp L (Fin a) = expf L a"

definition math_Max :: "f64 \<Rightarrow> f64 \<Rightarrow> f64" where
  \<comment> \<open>\<^verbatim>\<open>math.Max\<close>: +Inf if either is +Inf, else NaN if either is NaN, else the larger\<close>
  "math_Max x y =
     (if x = PInf \<or> y = PInf then PInf
      else if isNaN x \<or> isNaN y then NaN
      else if fgt x y then x else y)"

definition Compare :: "f64 \<Rightarrow> f64 \<Rightarrow> int" where
  \<comment> \<open>\<^verbatim>\<open>cmp.Compare\<close>: a NaN is less than any non-NaN and equal to a NaN\<close>
  "Compare x y =
     (if isNaN x then (if isNaN y then 0 else -1)
      else if isNaN y then 1
      else if flt x y then -1
      else if fgt x y then 1
      else 0)"

definition cmpLess :: "f64 \<Rightarrow> f64 \<Rightarrow> bool" where
  \<comment> \<open>the order of \<^verbatim>\<open>slices.Sort\<close>: \<^verbatim>\<open>(isNaN(x) && !isNaN(y)) || x < y\<close>\<close>
  "cmpLess x y = ((isNaN x \<and> \<not> isNaN y) \<or> flt x y)"

subsection \<open>Library routines\<close>

fun insert_by :: "('a \<Rightarrow> 'a \<Rightarrow> bool) \<Rightarrow> 'a \<Rightarrow> 'a list \<Rightarrow> 'a list" where
  "insert_by lt x [] = [x]"
| "insert_by lt x (y # ys) = (if lt x y then x # y # ys else y # insert_by lt x ys)"

definition insertionSort :: "('a \<Rightarrow> 'a \<Rightarrow> bool) \<Rightarrow> 'a list \<Rightarrow> 'a list" where
  \<comment> \<open>the insertion sort of package slices (its sort for slices of at most 12 elements):
      each element in turn moves left past the elements it is less than\<close>
  "insertionSort lt xs = foldl (\<lambda>acc x. insert_by lt x acc) [] xs"

definition slices_Sort :: "f64 list \<Rightarrow> f64 list" where
  \<comment> \<open>\<^verbatim>\<open>slices.Sort\<close> on float64: ascending, NaNs first.  Floats that compare equal are the
      same value, so the sorted slice does not depend on the sorting algorithm.\<close>
  "slices_Sort xs = insertionSort cmpLess xs"

definition insertionSortCmpFunc :: "(nat \<Rightarrow> nat \<Rightarrow> int) \<Rightarrow> nat list \<Rightarrow> nat list" where
  \<comment> \<open>what \<^verbatim>\<open>slices.SortFunc\<close> runs on a slice of at most 12 elements\<close>
  "insertionSortCmpFunc c xs = insertionSort (\<lambda>a b. c a b < 0) xs"

fun MaxIdx_loop :: "f64 list \<Rightarrow> nat \<Rightarrow> f64 \<Rightarrow> nat \<Rightarrow> nat" where
  "MaxIdx_loop [] i mx ind = ind"
| "MaxIdx_loop (v # vs) i mx ind =
     (if isNaN v then MaxIdx_loop vs (i + 1) mx ind
      else if fgt v mx \<or> isNaN mx then MaxIdx_loop vs (i + 1) v i
      else MaxIdx_loop vs (i + 1) mx ind)"

datatype error = Error string | Panic

definition MaxIdx :: "f64 list \<Rightarrow> error + nat" where
  \<comment> \<open>Modelled from the spec: \<^verbatim>\<open>floats.MaxIdx\<close> of gonum (a dependency, not under src/):
      the index of the maximum score, the first one when several positions hold it;
      positions holding the sentinel are passed over; it panics on an empty slice.\<close>
  "MaxIdx s = (if s = [] then Inl Panic else Inr (MaxIdx_loop s 0 NaN 0))"

definition floats_Max :: "f64 list \<Rightarrow> error + f64" where
  \<comment> \<open>Modelled from the spec: \<^verbatim>\<open>floats.Max\<close> of gonum, the maximum score:
      \<^verbatim>\<open>s[MaxIdx(s)]\<close>\<close>
  "floats_Max s = (case MaxIdx s of Inl e \<Rightarrow> Inl e | Inr i \<Rightarrow> Inr (s ! i))"

definition floats_Sum :: "lib \<Rightarrow> f64 list \<Rightarrow> f64" where
  \<comment> \<open>Modelled from the spec: \<^verbatim>\<open>floats.Sum\<close> of gonum, the sum of the elements,
      accumulated from the left starting at 0 (the library's portable loop)\<close>
  "floats_Sum L s = foldl (fadd L) (Fin 0) s"

definition floats_Scale :: "lib \<Rightarrow> f64 \<Rightarrow> f64 list \<Rightarrow> f64 list" where
  \<comment> \<open>Modelled from the spec: \<^verbatim>\<open>floats.Scale\<close> of gonum: \<^verbatim>\<open>dst[i] *= c\<close> for every i\<close>
  "floats_Scale L c dst = map (\<lambda>x. fmul L x c) dst"

subsection \<open>The samplers\<close>

text \<open>
  A sampler's \<^verbatim>\<open>Sample\<close> takes a slice and returns a slice or an error.  Temperature,
  TopK, TopP and MinP write into the slice they are given and return that same slice;
  the others return a fresh slice.  An \<open>outcome\<close> keeps both sides of the call:
  \<open>mem\<close> is what the caller's slice holds afterwards and \<open>ret\<close> is what the call
  returns (\<open>Inl\<close> for an error or a panic).
\<close>

record outcome =
  mem :: "f64 list"
  ret :: "error + f64 list"

definition Temperature_Sample :: "lib \<Rightarrow> f64 \<Rightarrow> f64 list \<Rightarrow> outcome" where
  "Temperature_Sample L t logits =
     (if flt t (Fin 0) \<or> fgt t (Fin 2)
      then \<lparr>mem = logits, ret = Inl (Error ''temperature must be between 0 and 2'')\<rparr>
      else case floats_Max logits of
        Inl e \<Rightarrow> \<lparr>mem = logits, ret = Inl e\<rparr>
      | Inr maxLogit \<Rightarrow>
          let temp = math_Max t (rnd L (1 / 10 ^ 7));
              logits' = map (\<lambda>x. fdiv L (fsub L x maxLogit) temp) logits
          in \<lparr>mem = logits', ret = Inr logits'\<rparr>)"

definition computeSoftmax :: "lib \<Rightarrow> f64 list \<Rightarrow> error + f64 list" where
  "computeSoftmax L logits =
     (let copiedLogits = map (fexp L) logits;
          floatSum = floats_Sum L copiedLogits
      in Inr (floats_Scale L (fdiv L (Fin 1) floatSum) copiedLogits))"

definition softmax_Sample :: "lib \<Rightarrow> f64 list \<Rightarrow> outcome" where
  "softmax_Sample L logits = \<lparr>mem = logits, ret = computeSoftmax L logits\<rparr>"

definition exclude :: "nat list \<Rightarrow> f64 list \<Rightarrow> f64 list" where
  \<comment> \<open>\<^verbatim>\<open>for _, idx := range idxs { logits[idx] = math.NaN() }\<close>\<close>
  "exclude idxs logits = fold (\<lambda>idx l. l[idx := NaN]) idxs logits"

definition TopK_Sample :: "lib \<Rightarrow> int \<Rightarrow> f64 list \<Rightarrow> outcome" where
  "TopK_Sample L k logits =
     (if k \<le> 0 then \<lparr>mem = logits, ret = Inl (Error ''k must be positive'')\<rparr>
      else if k \<ge> int (length logits) then \<lparr>mem = logits, ret = Inr logits\<rparr>
      else
        let indices = [0..<length logits];
            indices = SortFunc L (\<lambda>i j. Compare (logits ! j) (logits ! i)) indices;
            logits' = exclude (drop (nat k) indices) logits
        in \<lparr>mem = logits', ret = Inr logits'\<rparr>)"

fun TopP_loop :: "lib \<Rightarrow> f64 \<Rightarrow> f64 list \<Rightarrow> nat list \<Rightarrow> f64 \<Rightarrow> f64 list \<Rightarrow> f64 list" where
  \<comment> \<open>the loop over the ranked indices: the list is what is left of them, \<open>cumSum\<close>
      the mass so far\<close>
  "TopP_loop L p probs [] cumSum logits = logits"
| "TopP_loop L p probs (idx # rest) cumSum logits =
     (let cumSum = fadd L cumSum (probs ! idx)
      in if fgt cumSum p then exclude rest logits
         else TopP_loop L p probs rest cumSum logits)"

definition TopP_Sample :: "lib \<Rightarrow> f64 \<Rightarrow> f64 list \<Rightarrow> outcome" where
  "TopP_Sample L p logits =
     (if fle p (Fin 0) \<or> fge p (Fin 1)
      then \<lparr>mem = logits, ret = Inl (Error ''p must be between 0 and 1'')\<rparr>
      else case computeSoftmax L logits of
        Inl e \<Rightarrow> \<lparr>mem = logits, ret = Inl e\<rparr>
      | Inr probs \<Rightarrow>
          let indices = [0..<length probs];
              indices = SortFunc L (\<lambda>i j. Compare (probs ! j) (probs ! i)) indices;
              logits' = TopP_loop L p probs indices (Fin 0) logits
          in \<lparr>mem = logits', ret = Inr logits'\<rparr>)"

definition MinP_Sample :: "lib \<Rightarrow> f64 \<Rightarrow> f64 list \<Rightarrow> outcome" where
  "MinP_Sample L p logits =
     (if fle p (Fin 0) \<or> fge p (Fin 1)
      then \<lparr>mem = logits, ret = Inl (Error ''p must be between 0 and 1'')\<rparr>
      else case computeSoftmax L logits of
        Inl e \<Rightarrow> \<lparr>mem = logits, ret = Inl e\<rparr>
      | Inr probs \<Rightarrow>
          let copiedProbs = slices_Sort probs
          in if copiedProbs = [] then \<lparr>mem = logits, ret = Inl Panic\<rparr>
             else
               let maxProb = last copiedProbs;
                   probThreshold = fmul L p maxProb;
                   logits' = map (\<lambda>i. if flt (probs ! i) probThreshold then NaN else logits ! i)
                                 [0..<length probs]
               in \<lparr>mem = logits', ret = Inr logits'\<rparr>)"

definition weighed_Sample :: "lib \<Rightarrow> f64 list \<Rightarrow> outcome" where
  "weighed_Sample L logits =
     (let kept = filter (\<lambda>i. \<not> isNaN (logits ! i)) [0..<length logits];
          logitsCopy = map (\<lambda>i. logits ! i) kept;
          indices = kept
      in if length logitsCopy = 0
         then \<lparr>mem = logits, ret = Inl (Error ''no valid tokens found'')\<rparr>
         else case computeSoftmax L logitsCopy of
           Inl e \<Rightarrow> \<lparr>mem = logits, ret = Inl e\<rparr>
         | Inr logitsCopy \<Rightarrow>
             (case Take L logitsCopy of
                Drawn v \<Rightarrow>
                  if v < length indices
                  then \<lparr>mem = logits, ret = Inr [Fin (real (indices ! v))]\<rparr>
                  else \<lparr>mem = logits, ret = Inl Panic\<rparr>
              | NoDraw \<Rightarrow> \<lparr>mem = logits, ret = Inl (Error ''weighed sampler failed'')\<rparr>
              | DrawPanic \<Rightarrow> \<lparr>mem = logits, ret = Inl Panic\<rparr>))"

definition greedy_Sample :: "f64 list \<Rightarrow> outcome" where
  "greedy_Sample logits =
     (case MaxIdx logits of
        Inl e \<Rightarrow> \<lparr>mem = logits, ret = Inl e\<rparr>
      | Inr i \<Rightarrow> \<lparr>mem = logits, ret = Inr [Fin (real i)]\<rparr>)"

subsection \<open>The pipeline\<close>

text \<open>The implementations of the interface \<^verbatim>\<open>Sampler\<close> that the package provides.\<close>

datatype sampler =
    Temperature f64
  | Softmax
  | TopK int
  | TopP f64
  | MinP f64
  | Weighed
  | Greedy

fun sampler_Sample :: "lib \<Rightarrow> sampler \<Rightarrow> f64 list \<Rightarrow> outcome" where
  \<comment> \<open>the dynamic dispatch of \<^verbatim>\<open>sampler.Sample(logits)\<close>\<close>
  "sampler_Sample L (Temperature t) logits = Temperature_Sample L t logits"
| "sampler_Sample L Softmax logits = softmax_Sample L logits"
| "sampler_Sample L (TopK k) logits = TopK_Sample L k logits"
| "sampler_Sample L (TopP p) logits = TopP_Sample L p logits"
| "sampler_Sample L (MinP p) logits = MinP_Sample L p logits"
| "sampler_Sample L Weighed logits = weighed_Sample L logits"
| "sampler_Sample L Greedy logits = greedy_Sample logits"

fun Sample :: "lib \<Rightarrow> f64 list \<Rightarrow> sampler list \<Rightarrow> error + f64 list" where
  "Sample L logits [] = Inr logits"
| "Sample L logits (s # samplers) =
     (if s = Temperature (Fin 0)
      then (case ret (greedy_Sample logits) of Inl e \<Rightarrow> Inl e | Inr logits' \<Rightarrow> Inr logits')
      else case ret (sampler_Sample L s logits) of
             Inl e \<Rightarrow> Inl e
           | Inr logits' \<Rightarrow> Sample L logits' samplers)"

subsection \<open>A reference platform\<close>

definition first_positive :: "f64 list \<Rightarrow> draw" where
  \<comment> \<open>a draw that always lands on the first position of positive weight\<close>
  "first_positive w =
     (case filter (\<lambda>i. flt (Fin 0) (w ! i)) [0..<length w] of [] \<Rightarrow> NoDraw | i # _ \<Rightarrow> Drawn i)"

definition exact_lib :: lib where
  \<comment> \<open>exact arithmetic (nothing is rounded), the insertion sort that package slices runs
      on short slices, and the draw \<open>first_positive\<close>\<close>
  "exact_lib = \<lparr>rnd = Fin, expf = (\<lambda>a. Fin (exp a)), SortFunc = insertionSortCmpFunc,
                 Take = first_positive\<rparr>"

definition overflow_lib :: lib where
  \<comment> \<open>the reference platform with the overflow of \<^verbatim>\<open>math.Exp\<close>: above its constant
      \<^verbatim>\<open>Overflow = 7.09782712893383973096e+02\<close> the result is +Inf (the exponential
      is beyond the largest float64)\<close>
  "overflow_lib =
     exact_lib\<lparr>expf := (\<lambda>a. if 709.782712893383973096 < a then PInf else Fin (exp a))\<rparr>"

definition round_half_even :: "real \<Rightarrow> int" where
  \<comment> \<open>the nearest integer, a tie going to the even one\<close>
  "round_half_even q =
     (let f = \<lfloor>q\<rfloor>; d = q - of_int f
      in if d < 1 / 2 then f else if 1 / 2 < d then f + 1 else if even f then f else f + 1)"

definition absorbing_lib :: lib where
  \<comment> \<open>the reference platform with the rounding of float64 between 2^56 and 2^57: a
      float64 carries 53 bits, so its values there are the multiples of 16 and a result
      in that range becomes the nearest of them; every other result is left exact\<close>
  "absorbing_lib =
     exact_lib\<lparr>rnd := (\<lambda>r. if 2 ^ 56 \<le> \<bar>r\<bar> \<and> \<bar>r\<bar> < 2 ^ 57
                            then Fin (16 * of_int (round_half_even (r / 16)))
                            else Fin r)\<rparr>"

subsection \<open>Notions used in the statements\<close>

definition ranked :: "lib \<Rightarrow> f64 list \<Rightarrow> nat list" where
  \<comment> \<open>the positions of \<open>v\<close> as TopK and TopP rank them: \<^verbatim>\<open>slices.SortFunc\<close> with the
      comparison \<^verbatim>\<open>cmp.Compare(v[j], v[i])\<close>\<close>
  "ranked L v = SortFunc L (\<lambda>i j. Compare (v ! j) (v ! i)) [0..<length v]"

definition sorts :: "lib \<Rightarrow> bool" where
  \<comment> \<open>the contract of \<^verbatim>\<open>slices.SortFunc\<close>: the result is a permutation of the slice in
      which no element compares less than one before it\<close>
  "sorts L = (\<forall>v. mset (ranked L v) = mset [0..<length v] \<and>
                  sorted_wrt (\<lambda>a b. 0 \<le> Compare (v ! a) (v ! b)) (ranked L v))"

fun thread_stages :: "lib \<Rightarrow> sampler list \<Rightarrow> f64 list \<Rightarrow> error + f64 list" where
  \<comment> \<open>the specification's words for the driver, without the short circuit: thread the
      vector through each strategy in list order, the output of one being the input
      of the next; the first strategy that fails aborts with its error\<close>
  "thread_stages L [] v = Inr v"
| "thread_stages L (s # ss) v =
     (case ret (sampler_Sample L s v) of
        Inl e \<Rightarrow> Inl e
      | Inr v' \<Rightarrow> thread_stages L ss v')"

definition no_better :: "f64 \<Rightarrow> f64 list \<Rightarrow> bool" where
  \<comment> \<open>no score of \<open>vs\<close> beats the running maximum \<open>mx\<close>\<close>
  "no_better mx vs = (\<forall>v\<in>set vs. v = NaN \<or> (mx \<noteq> NaN \<and> \<not> flt mx v))"

definition exact :: "lib \<Rightarrow> bool" where
  \<comment> \<open>arithmetic without rounding: every finite result is the exact one\<close>
  "exact L = (rnd L = Fin \<and> expf L = (\<lambda>a. Fin (exp a)))"

definition isFinite :: "f64 \<Rightarrow> bool" where
  \<comment> \<open>a number: neither the sentinel nor an infinity\<close>
  "isFinite x = (case x of Fin r \<Rightarrow> True | _ \<Rightarrow> False)"

definition mass :: "lib \<Rightarrow> f64 list \<Rightarrow> nat list \<Rightarrow> f64" where
  \<comment> \<open>the probability of the positions \<open>idxs\<close>, added up in their order from 0 as the
      loop of TopP does\<close>
  "mass L probs idxs = foldl (fadd L) (Fin 0) (map (\<lambda>i. probs ! i) idxs)"

section \<open>Properties\<close>

subsection \<open>float64 and the reference platform\<close>

lemma fadd_NaN_right [simp]: "fadd L x NaN = NaN"
  by (cases x) simp_all

lemma fsub_NaN_right [simp]: "fsub L x NaN = NaN"
  by (cases x) simp_all

lemma fmul_NaN_right [simp]: "fmul L x NaN = NaN"
  by (cases x) simp_all

lemma fdiv_NaN_right [simp]: "fdiv L x NaN = NaN"
  by (cases x) simp_all

lemma flt_NaN_right [simp]: "flt x NaN = False"
  by (cases x) simp_all

lemma flt_trans: "flt x y \<Longrightarrow> flt y z \<Longrightarrow> flt x z"
  by (cases x; cases y; cases z) simp_all

lemma flt_irrefl [simp]: "\<not> flt x x"
  by (cases x) simp_all

lemma flt_asym: "flt x y \<Longrightarrow> \<not> flt y x"
  by (cases x; cases y) simp_all

lemma cmpLess_asym: "cmpLess x y \<Longrightarrow> \<not> cmpLess y x"
  by (cases x; cases y) (simp_all add: cmpLess_def isNaN_def)

lemma cmpLess_cotrans: "\<not> cmpLess y x \<Longrightarrow> \<not> cmpLess z y \<Longrightarrow> \<not> cmpLess z x"
  by (cases x; cases y; cases z) (simp_all add: cmpLess_def isNaN_def)

lemma Compare_neg_iff: "Compare x y < 0 \<longleftrightarrow> cmpLess x y"
  by (cases x; cases y) (simp_all add: Compare_def cmpLess_def isNaN_def fgt_def)

lemma Compare_nonneg_iff: "0 \<le> Compare x y \<longleftrightarrow> \<not> cmpLess x y"
  using Compare_neg_iff[of x y] by linarith

lemma exact_lib_simps [simp]:
  "rnd exact_lib = Fin"
  "expf exact_lib = (\<lambda>a. Fin (exp a))"
  "SortFunc exact_lib = insertionSortCmpFunc"
  "Take exact_lib = first_positive"
  by (simp_all add: exact_lib_def)

subsection \<open>Sorting\<close>

lemma mset_insert_by: "mset (insert_by lt x ys) = add_mset x (mset ys)"
  by (induction ys) simp_all

lemma mset_foldl_insert_by:
  "mset (foldl (\<lambda>acc x. insert_by lt x acc) acc xs) = mset acc + mset xs"
  by (induction xs arbitrary: acc) (simp_all add: mset_insert_by)

lemma mset_insertionSort: "mset (insertionSort lt xs) = mset xs"
  by (simp add: insertionSort_def mset_foldl_insert_by)

lemma set_insert_by: "set (insert_by lt x ys) = insert x (set ys)"
  using mset_insert_by[of lt x ys] by (metis set_mset_add_mset_insert set_mset_mset)

lemma sorted_insert_by:
  assumes asym: "\<And>a b. lt a b \<Longrightarrow> \<not> lt b a"
      and cotrans: "\<And>a b c. \<not> lt b a \<Longrightarrow> \<not> lt c b \<Longrightarrow> \<not> lt c a"
      and "sorted_wrt (\<lambda>a b. \<not> lt b a) ys"
  shows "sorted_wrt (\<lambda>a b. \<not> lt b a) (insert_by lt x ys)"
  using assms(3)
proof (induction ys)
  case Nil
  then show ?case by simp
next
  case (Cons y ys)
  show ?case
  proof (cases "lt x y")
    case True
    then have "\<not> lt y x" by (rule asym)
    moreover have "\<forall>z\<in>set ys. \<not> lt z x"
    proof
      fix z assume "z \<in> set ys"
      then have "\<not> lt z y" using Cons.prems by simp
      with \<open>\<not> lt y x\<close> show "\<not> lt z x" by (rule cotrans)
    qed
    ultimately show ?thesis using True Cons.prems by simp
  next
    case False
    then show ?thesis using Cons by (simp add: set_insert_by)
  qed
qed

lemma sorted_insertionSort:
  assumes asym: "\<And>a b. lt a b \<Longrightarrow> \<not> lt b a"
      and cotrans: "\<And>a b c. \<not> lt b a \<Longrightarrow> \<not> lt c b \<Longrightarrow> \<not> lt c a"
  shows "sorted_wrt (\<lambda>a b. \<not> lt b a) (insertionSort lt xs)"
proof -
  have "sorted_wrt (\<lambda>a b. \<not> lt b a) acc \<Longrightarrow>
        sorted_wrt (\<lambda>a b. \<not> lt b a) (foldl (\<lambda>acc x. insert_by lt x acc) acc xs)" for acc
  proof (induction xs arbitrary: acc)
    case Nil
    then show ?case by simp
  next
    case (Cons x xs)
    have "sorted_wrt (\<lambda>a b. \<not> lt b a) (insert_by lt x acc)"
      using asym cotrans Cons.prems by (rule sorted_insert_by)
    then show ?case using Cons.IH by simp
  qed
  then show ?thesis by (simp add: insertionSort_def)
qed

text \<open>The insertion sort of the reference platform meets the contract of SortFunc.\<close>

lemma sorts_exact_lib: "sorts exact_lib"
proof -
  have "mset (ranked exact_lib v) = mset [0..<length v] \<and>
        sorted_wrt (\<lambda>a b. 0 \<le> Compare (v ! a) (v ! b)) (ranked exact_lib v)" for v
  proof
    show "mset (ranked exact_lib v) = mset [0..<length v]"
      by (simp add: ranked_def insertionSortCmpFunc_def mset_insertionSort)
    let ?lt = "\<lambda>a b. Compare (v ! b) (v ! a) < 0"
    have "sorted_wrt (\<lambda>a b. \<not> ?lt b a) (insertionSort ?lt [0..<length v])"
      by (rule sorted_insertionSort) (auto simp: Compare_neg_iff dest: cmpLess_asym cmpLess_cotrans)
    then show "sorted_wrt (\<lambda>a b. 0 \<le> Compare (v ! a) (v ! b)) (ranked exact_lib v)"
      by (simp add: ranked_def insertionSortCmpFunc_def not_less)
  qed
  then show ?thesis by (simp add: sorts_def)
qed

lemma sorts_set: "sorts L \<Longrightarrow> set (ranked L v) = {0..<length v}"
  unfolding sorts_def by (metis set_mset_mset set_upt)

lemma sorts_length: "sorts L \<Longrightarrow> length (ranked L v) = length v"
  unfolding sorts_def by (metis size_mset length_upt diff_zero)

lemma sorts_distinct: "sorts L \<Longrightarrow> distinct (ranked L v)"
  unfolding sorts_def by (metis distinct_upt mset_eq_imp_distinct_iff)

lemma sorted_slices_Sort: "sorted_wrt (\<lambda>a b. \<not> cmpLess b a) (slices_Sort xs)"
  unfolding slices_Sort_def
  by (rule sorted_insertionSort) (auto dest: cmpLess_asym cmpLess_cotrans)

lemma mset_slices_Sort: "mset (slices_Sort xs) = mset xs"
  by (simp add: slices_Sort_def mset_insertionSort)

text \<open>The last element of the sorted copy is a maximum of the slice.\<close>

lemma last_slices_Sort:
  assumes "xs \<noteq> []"
  shows "last (slices_Sort xs) \<in> set xs \<and> (\<forall>q\<in>set xs. \<not> cmpLess (last (slices_Sort xs)) q)"
proof -
  let ?s = "slices_Sort xs"
  have ne: "?s \<noteq> []" using assms mset_slices_Sort[of xs] by (metis mset_zero_iff)
  have set: "set ?s = set xs" using mset_slices_Sort[of xs] by (metis set_mset_mset)
  have "last ?s \<in> set xs" using ne set last_in_set by blast
  moreover have "\<not> cmpLess (last ?s) q" if "q \<in> set xs" for q
  proof -
    from that set obtain i where i: "i < length ?s" "?s ! i = q" by (metis in_set_conv_nth)
    show ?thesis
    proof (cases "i = length ?s - 1")
      case True
      then have "q = last ?s" using i ne by (simp add: last_conv_nth)
      then show ?thesis using cmpLess_asym by blast
    next
      case False
      then have "i < length ?s - 1" using i by simp
      then have "\<not> cmpLess (?s ! (length ?s - 1)) (?s ! i)"
        using sorted_slices_Sort[of xs] ne by (simp add: sorted_wrt_iff_nth_less)
      then show ?thesis using i ne by (simp add: last_conv_nth)
    qed
  qed
  ultimately show ?thesis by blast
qed

subsection \<open>Excluding positions\<close>

lemma exclude_length [simp]: "length (exclude idxs l) = length l"
  unfolding exclude_def by (induction idxs arbitrary: l) simp_all

lemma exclude_nth:
  "i < length l \<Longrightarrow> exclude idxs l ! i = (if i \<in> set idxs then NaN else l ! i)"
  unfolding exclude_def
proof (induction idxs arbitrary: l)
  case Nil
  then show ?case by simp
next
  case (Cons j idxs)
  have len: "i < length (l[j := NaN])" using Cons.prems by simp
  show ?case
    using Cons.IH[OF len] Cons.prems by (auto simp: nth_list_update)
qed

subsection \<open>Greedy selection\<close>

text \<open>
  The scan of \<open>MaxIdx\<close>: either it keeps the index it started with, and then no score
  of the slice beats the running maximum, or it returns a position \<open>i + k\<close> whose score
  is a number that beats the running maximum, that no score of the slice exceeds and
  that every earlier score is below.
\<close>

lemma MaxIdx_loop_spec:
  "(MaxIdx_loop vs i mx ind = ind \<and> no_better mx vs) \<or>
   (\<exists>k<length vs. MaxIdx_loop vs i mx ind = i + k \<and> vs ! k \<noteq> NaN \<and>
       (mx = NaN \<or> flt mx (vs ! k)) \<and>
       (\<forall>j<length vs. \<not> flt (vs ! k) (vs ! j)) \<and>
       (\<forall>j<k. vs ! j = NaN \<or> flt (vs ! j) (vs ! k)))"
proof (induction vs arbitrary: i mx ind)
  case Nil
  then show ?case by (simp add: no_better_def)
next
  case (Cons v vs)
  show ?case
  proof (cases "v = NaN")
    case True
    from Cons.IH[of "i + 1" mx ind] show ?thesis
    proof
      assume "MaxIdx_loop vs (i + 1) mx ind = ind \<and> no_better mx vs"
      then show ?thesis using True by (simp add: isNaN_def no_better_def)
    next
      assume "\<exists>k<length vs. MaxIdx_loop vs (i + 1) mx ind = i + 1 + k \<and> vs ! k \<noteq> NaN \<and>
       (mx = NaN \<or> flt mx (vs ! k)) \<and>
       (\<forall>j<length vs. \<not> flt (vs ! k) (vs ! j)) \<and>
       (\<forall>j<k. vs ! j = NaN \<or> flt (vs ! j) (vs ! k))"
      then obtain k where k: "k < length vs" "MaxIdx_loop vs (i + 1) mx ind = i + 1 + k" "vs ! k \<noteq> NaN"
        "mx = NaN \<or> flt mx (vs ! k)" "\<forall>j<length vs. \<not> flt (vs ! k) (vs ! j)"
        "\<forall>j<k. vs ! j = NaN \<or> flt (vs ! j) (vs ! k)" by blast
      have "Suc k < length (v # vs)" using k by simp
      moreover have "MaxIdx_loop (v # vs) i mx ind = i + Suc k" using k True by (simp add: isNaN_def)
      moreover have "(v # vs) ! Suc k \<noteq> NaN" using k by simp
      moreover have "mx = NaN \<or> flt mx ((v # vs) ! Suc k)" using k by simp
      moreover have "\<forall>j<length (v # vs). \<not> flt ((v # vs) ! Suc k) ((v # vs) ! j)"
        using k True by (auto simp: nth_Cons split: nat.splits)
      moreover have "\<forall>j<Suc k. (v # vs) ! j = NaN \<or> flt ((v # vs) ! j) ((v # vs) ! Suc k)"
        using k True by (auto simp: nth_Cons split: nat.splits)
      ultimately show ?thesis by blast
    qed
  next
    case False
    show ?thesis
    proof (cases "fgt v mx \<or> isNaN mx")
      case take: True
      from Cons.IH[of "i + 1" v i] show ?thesis
      proof
        assume a: "MaxIdx_loop vs (i + 1) v i = i \<and> no_better v vs"
        have "0 < length (v # vs)" by simp
        moreover have "MaxIdx_loop (v # vs) i mx ind = i + 0" using a False take by (simp add: isNaN_def)
        moreover have "(v # vs) ! 0 \<noteq> NaN" using False by simp
        moreover have "mx = NaN \<or> flt mx ((v # vs) ! 0)" using take by (auto simp: fgt_def isNaN_def)
        moreover have "\<forall>j<length (v # vs). \<not> flt ((v # vs) ! 0) ((v # vs) ! j)"
          using a by (auto simp: nth_Cons no_better_def all_set_conv_all_nth split: nat.splits)
        ultimately show ?thesis by blast
      next
        assume "\<exists>k<length vs. MaxIdx_loop vs (i + 1) v i = i + 1 + k \<and> vs ! k \<noteq> NaN \<and>
         (v = NaN \<or> flt v (vs ! k)) \<and>
         (\<forall>j<length vs. \<not> flt (vs ! k) (vs ! j)) \<and>
         (\<forall>j<k. vs ! j = NaN \<or> flt (vs ! j) (vs ! k))"
        then obtain k where k: "k < length vs" "MaxIdx_loop vs (i + 1) v i = i + 1 + k" "vs ! k \<noteq> NaN"
          "flt v (vs ! k)" "\<forall>j<length vs. \<not> flt (vs ! k) (vs ! j)"
          "\<forall>j<k. vs ! j = NaN \<or> flt (vs ! j) (vs ! k)" using False by blast
        have "Suc k < length (v # vs)" using k by simp
        moreover have "MaxIdx_loop (v # vs) i mx ind = i + Suc k" using k False take by (simp add: isNaN_def)
        moreover have "(v # vs) ! Suc k \<noteq> NaN" using k by simp
        moreover have "mx = NaN \<or> flt mx ((v # vs) ! Suc k)"
          using k take by (auto simp: fgt_def isNaN_def intro: flt_trans)
        moreover have "\<forall>j<length (v # vs). \<not> flt ((v # vs) ! Suc k) ((v # vs) ! j)"
          using k by (auto simp: nth_Cons split: nat.splits dest: flt_asym)
        moreover have "\<forall>j<Suc k. (v # vs) ! j = NaN \<or> flt ((v # vs) ! j) ((v # vs) ! Suc k)"
          using k by (auto simp: nth_Cons split: nat.splits)
        ultimately show ?thesis by blast
      qed
    next
      case keep: False
      then have mx: "mx \<noteq> NaN" "\<not> flt mx v" by (auto simp: fgt_def isNaN_def)
      from Cons.IH[of "i + 1" mx ind] show ?thesis
      proof
        assume "MaxIdx_loop vs (i + 1) mx ind = ind \<and> no_better mx vs"
        then show ?thesis using False keep mx by (simp add: isNaN_def no_better_def)
      next
        assume "\<exists>k<length vs. MaxIdx_loop vs (i + 1) mx ind = i + 1 + k \<and> vs ! k \<noteq> NaN \<and>
         (mx = NaN \<or> flt mx (vs ! k)) \<and>
         (\<forall>j<length vs. \<not> flt (vs ! k) (vs ! j)) \<and>
         (\<forall>j<k. vs ! j = NaN \<or> flt (vs ! j) (vs ! k))"
        then obtain k where k: "k < length vs" "MaxIdx_loop vs (i + 1) mx ind = i + 1 + k" "vs ! k \<noteq> NaN"
          "flt mx (vs ! k)" "\<forall>j<length vs. \<not> flt (vs ! k) (vs ! j)"
          "\<forall>j<k. vs ! j = NaN \<or> flt (vs ! j) (vs ! k)" using mx by blast
        have vk: "flt v (vs ! k)" "\<not> flt (vs ! k) v"
          using k(3,4) mx False by (cases v; cases mx; cases "vs ! k"; simp)+
        have "Suc k < length (v # vs)" using k by simp
        moreover have "MaxIdx_loop (v # vs) i mx ind = i + Suc k" using k False keep by (simp add: isNaN_def)
        moreover have "(v # vs) ! Suc k \<noteq> NaN" using k by simp
        moreover have "mx = NaN \<or> flt mx ((v # vs) ! Suc k)" using k by simp
        moreover have "\<forall>j<length (v # vs). \<not> flt ((v # vs) ! Suc k) ((v # vs) ! j)"
          using k vk by (auto simp: nth_Cons split: nat.splits)
        moreover have "\<forall>j<Suc k. (v # vs) ! j = NaN \<or> flt ((v # vs) ! j) ((v # vs) ! Suc k)"
          using k vk by (auto simp: nth_Cons split: nat.splits)
        ultimately show ?thesis by blast
      qed
    qed
  qed
qed

text \<open>
  C8.  On a non-empty vector \<open>greedy.Sample\<close> returns, without error, the
  one-element slice holding an index \<open>i\<close> of the vector such that no score exceeds
  the score at \<open>i\<close> and every score before \<open>i\<close> is strictly smaller (or the
  sentinel): the first position of the maximum.  The score at \<open>i\<close> is a number as
  soon as the vector holds one.  The input slice is left as it was.
\<close>

theorem greedy_first_maximum:
  assumes "logits \<noteq> []"
  shows "\<exists>i<length logits.
           greedy_Sample logits = \<lparr>mem = logits, ret = Inr [Fin (real i)]\<rparr> \<and>
           (\<forall>j<length logits. \<not> flt (logits ! i) (logits ! j)) \<and>
           (\<forall>j<i. logits ! j = NaN \<or> flt (logits ! j) (logits ! i)) \<and>
           ((\<exists>j<length logits. logits ! j \<noteq> NaN) \<longrightarrow> logits ! i \<noteq> NaN)"
proof -
  have g: "greedy_Sample logits =
             \<lparr>mem = logits, ret = Inr [Fin (real (MaxIdx_loop logits 0 NaN 0))]\<rparr>"
    using assms by (simp add: greedy_Sample_def MaxIdx_def)
  from MaxIdx_loop_spec[of logits 0 NaN 0] show ?thesis
  proof
    assume a: "MaxIdx_loop logits 0 NaN 0 = 0 \<and> no_better NaN logits"
    then have all: "\<forall>j<length logits. logits ! j = NaN"
      by (simp add: no_better_def all_set_conv_all_nth)
    have "0 < length logits" using assms by simp
    moreover have "greedy_Sample logits = \<lparr>mem = logits, ret = Inr [Fin (real (0::nat))]\<rparr>"
      using g a by simp
    moreover have "\<forall>j<length logits. \<not> flt (logits ! 0) (logits ! j)" using all by simp
    moreover have "(\<exists>j<length logits. logits ! j \<noteq> NaN) \<longrightarrow> logits ! 0 \<noteq> NaN"
      using all by blast
    ultimately show ?thesis by blast
  next
    assume "\<exists>k<length logits. MaxIdx_loop logits 0 NaN 0 = 0 + k \<and> logits ! k \<noteq> NaN \<and>
       (NaN = NaN \<or> flt NaN (logits ! k)) \<and>
       (\<forall>j<length logits. \<not> flt (logits ! k) (logits ! j)) \<and>
       (\<forall>j<k. logits ! j = NaN \<or> flt (logits ! j) (logits ! k))"
    then obtain k where k: "k < length logits" "MaxIdx_loop logits 0 NaN 0 = k"
       "logits ! k \<noteq> NaN"
       "\<forall>j<length logits. \<not> flt (logits ! k) (logits ! j)"
       "\<forall>j<k. logits ! j = NaN \<or> flt (logits ! j) (logits ! k)" by auto
    then show ?thesis using g by auto
  qed
qed

text \<open>On [1.0, 5.0, 3.0] the index is 1; on a tie, [2.0, 7.0, 7.0], it is the first.\<close>

theorem greedy_first_maximum_witness:
  "[Fin 1, Fin 5, Fin 3] \<noteq> [] \<and>
   ret (greedy_Sample [Fin 1, Fin 5, Fin 3]) = Inr [Fin 1] \<and>
   ret (greedy_Sample [Fin 2, Fin 7, Fin 7]) = Inr [Fin 1]"
  using greedy_first_maximum[of "[Fin 1, Fin 5, Fin 3]"]
  by (simp add: greedy_Sample_def MaxIdx_def isNaN_def fgt_def)

subsection \<open>The zero-temperature short circuit\<close>

lemma Sample_append_zero:
  assumes "Temperature (Fin 0) \<notin> set pre"
  shows "Sample L logits (pre @ Temperature (Fin 0) # post) =
          (case thread_stages L pre logits of
             Inl e \<Rightarrow> Inl e
           | Inr v \<Rightarrow> ret (greedy_Sample v))"
  using assms
proof (induction pre arbitrary: logits)
  case Nil
  show ?case by (simp split: sum.splits)
next
  case (Cons s pre)
  then have "s \<noteq> Temperature (Fin 0)" by auto
  with Cons show ?case by (simp split: sum.splits)
qed

text \<open>
  C1.  If the list of samplers holds a Temperature of value 0, then it splits at the
  first one into the samplers before it and those after it, and \<open>Sample\<close> returns
  what \<open>greedy.Sample\<close> returns on the vector that results from threading the input
  through all the samplers before it, each on the output of the one before
  (\<open>thread_stages\<close>); if one of them fails, \<open>Sample\<close> returns its error.  The
  samplers after the zero temperature play no part.  In particular
  \<open>Sample([2.0, 9.0, 4.0], Temperature(0), TopK(1))\<close> returns [1].
\<close>

theorem Sample_zero_temperature:
  assumes "Temperature (Fin 0) \<in> set samplers"
  shows "(\<exists>pre post. samplers = pre @ Temperature (Fin 0) # post \<and>
            Temperature (Fin 0) \<notin> set pre \<and>
            Sample L logits samplers =
              (case thread_stages L pre logits of
                 Inl e \<Rightarrow> Inl e
               | Inr v \<Rightarrow> ret (greedy_Sample v))) \<and>
         Sample L [Fin 2, Fin 9, Fin 4] [Temperature (Fin 0), TopK 1] = Inr [Fin 1]"
proof
  from assms obtain pre post where
    split: "samplers = pre @ Temperature (Fin 0) # post" "Temperature (Fin 0) \<notin> set pre"
    by (meson split_list_first)
  then show "\<exists>pre post. samplers = pre @ Temperature (Fin 0) # post \<and>
            Temperature (Fin 0) \<notin> set pre \<and>
            Sample L logits samplers =
              (case thread_stages L pre logits of
                 Inl e \<Rightarrow> Inl e
               | Inr v \<Rightarrow> ret (greedy_Sample v))"
    using Sample_append_zero[OF split(2)] by blast
  show "Sample L [Fin 2, Fin 9, Fin 4] [Temperature (Fin 0), TopK 1] = Inr [Fin 1]"
    by (simp add: greedy_Sample_def MaxIdx_def isNaN_def fgt_def)
qed

text \<open>
  Two pipelines with two samplers before the zero temperature.  On [2, 9, 4], TopK(2)
  leaves [NaN, 9, 4] and Greedy turns that into [1]; the zero temperature then runs
  Greedy on [1], which gives [0], and the MinP with the invalid parameter 5 behind it
  is never run.  With TopK(5) and TopK(0) in front, the error of TopK(0) is returned.
\<close>

lemma TopK_2_of_2_9_4:
  "TopK_Sample exact_lib 2 [Fin 2, Fin 9, Fin 4] =
     \<lparr>mem = [NaN, Fin 9, Fin 4], ret = Inr [NaN, Fin 9, Fin 4]\<rparr>"
proof -
  have r: "ranked exact_lib [Fin 2, Fin 9, Fin 4] = [1, 2, 0]"
    by (simp add: ranked_def insertionSortCmpFunc_def insertionSort_def Compare_def
          isNaN_def fgt_def upt_rec)
  then show ?thesis by (simp add: TopK_Sample_def ranked_def exclude_def Let_def)
qed

theorem Sample_zero_temperature_witness:
  "Temperature (Fin 0) \<in> set [TopK 2, Greedy, Temperature (Fin 0), MinP (Fin 5)] \<and>
   thread_stages exact_lib [TopK 2, Greedy] [Fin 2, Fin 9, Fin 4] = Inr [Fin 1] \<and>
   Sample exact_lib [Fin 2, Fin 9, Fin 4] [TopK 2, Greedy, Temperature (Fin 0), MinP (Fin 5)]
     = Inr [Fin 0] \<and>
   Temperature (Fin 0) \<in> set [TopK 5, TopK 0, Temperature (Fin 0)] \<and>
   thread_stages exact_lib [TopK 5, TopK 0] [Fin 2, Fin 9, Fin 4]
     = Inl (Error ''k must be positive'') \<and>
   Sample exact_lib [Fin 2, Fin 9, Fin 4] [TopK 5, TopK 0, Temperature (Fin 0)]
     = Inl (Error ''k must be positive'')"
proof -
  have a: "thread_stages exact_lib [TopK 2, Greedy] [Fin 2, Fin 9, Fin 4] = Inr [Fin 1]"
    by (simp add: TopK_2_of_2_9_4 greedy_Sample_def MaxIdx_def isNaN_def fgt_def)
  have b: "thread_stages exact_lib [TopK 5, TopK 0] [Fin 2, Fin 9, Fin 4]
             = Inl (Error ''k must be positive'')"
    by (simp add: TopK_Sample_def)
  have c: "Sample exact_lib [Fin 2, Fin 9, Fin 4]
             [TopK 2, Greedy, Temperature (Fin 0), MinP (Fin 5)] = Inr [Fin 0]"
    by (simp add: TopK_2_of_2_9_4 greedy_Sample_def MaxIdx_def isNaN_def fgt_def)
  have d: "Sample exact_lib [Fin 2, Fin 9, Fin 4] [TopK 5, TopK 0, Temperature (Fin 0)]
             = Inl (Error ''k must be positive'')"
    by (simp add: TopK_Sample_def)
  show ?thesis
    using Sample_zero_temperature[of "[TopK 2, Greedy, Temperature (Fin 0), MinP (Fin 5)]"
            exact_lib "[Fin 2, Fin 9, Fin 4]"] a b c d
    by simp
qed

subsection \<open>The sentinel in softmax\<close>

lemma foldl_fadd_NaN: "foldl (fadd L) NaN xs = NaN"
  by (induction xs) simp_all

lemma foldl_fadd_has_NaN: "NaN \<in> set xs \<Longrightarrow> foldl (fadd L) a xs = NaN"
proof (induction xs arbitrary: a)
  case Nil
  then show ?case by simp
next
  case (Cons x xs)
  show ?case
  proof (cases "x = NaN")
    case True
    then show ?thesis by (simp add: foldl_fadd_NaN)
  next
    case False
    with Cons show ?thesis by simp
  qed
qed

lemma computeSoftmax_has_NaN:
  assumes "NaN \<in> set xs"
  shows "computeSoftmax L xs = Inr (replicate (length xs) NaN)"
proof -
  have "NaN \<in> set (map (fexp L) xs)" using assms by force
  then have "floats_Sum L (map (fexp L) xs) = NaN"
    by (simp only: floats_Sum_def foldl_fadd_has_NaN)
  then show ?thesis
    by (simp add: computeSoftmax_def floats_Scale_def map_replicate_const)
qed

lemma computeSoftmax_Inr: "\<exists>ps. computeSoftmax L xs = Inr ps \<and> length ps = length xs"
  by (simp add: computeSoftmax_def floats_Scale_def)

text \<open>
  C9.  When some position of the input holds the sentinel, \<open>computeSoftmax\<close>, and so
  \<open>Softmax().Sample\<close>, returns a vector of the same length in which every position
  is NaN, whatever the other scores are: the sentinel reaches the sum of the
  exponentials and through it every quotient.
\<close>

theorem softmax_contaminated:
  assumes "NaN \<in> set logits"
  shows "computeSoftmax L logits = Inr (replicate (length logits) NaN) \<and>
         softmax_Sample L logits = \<lparr>mem = logits, ret = Inr (replicate (length logits) NaN)\<rparr>"
  using assms by (simp add: softmax_Sample_def computeSoftmax_has_NaN)

theorem softmax_contaminated_witness:
  "NaN \<in> set [Fin 0, NaN, Fin 1] \<and>
   ret (softmax_Sample exact_lib [Fin 0, NaN, Fin 1]) = Inr [NaN, NaN, NaN]"
  using softmax_contaminated[of "[Fin 0, NaN, Fin 1]" exact_lib]
  by (simp add: numeral_3_eq_3)

subsection \<open>TopP and MinP on a vector that holds the sentinel\<close>

lemma TopP_loop_all_NaN:
  assumes "\<forall>i\<in>set idxs. i < n"
  shows "TopP_loop L p (replicate n NaN) idxs c logits = logits"
  using assms by (induction idxs arbitrary: c) (simp_all add: fgt_def)

lemma valid_p: "fgt p (Fin 0) \<Longrightarrow> flt p (Fin 1) \<Longrightarrow> \<not> (fle p (Fin 0) \<or> fge p (Fin 1))"
  by (cases p) (auto simp: fle_def fge_def fgt_def)

lemma TopP_has_NaN:
  assumes "sorts L" "fgt p (Fin 0)" "flt p (Fin 1)" "NaN \<in> set logits"
  shows "TopP_Sample L p logits = \<lparr>mem = logits, ret = Inr logits\<rparr>"
proof -
  let ?probs = "replicate (length logits) NaN"
  have v: "\<not> (fle p (Fin 0) \<or> fge p (Fin 1))"
    using assms(2,3) by (rule valid_p)
  have "\<forall>i\<in>set (ranked L ?probs). i < length logits"
    using sorts_set[OF assms(1), of ?probs] by simp
  then have "TopP_loop L p ?probs (ranked L ?probs) (Fin 0) logits = logits"
    by (rule TopP_loop_all_NaN)
  then show ?thesis
    using v by (simp add: TopP_Sample_def computeSoftmax_has_NaN[OF assms(4)] ranked_def)
qed

lemma MinP_has_NaN:
  assumes "fgt p (Fin 0)" "flt p (Fin 1)" "NaN \<in> set logits"
  shows "MinP_Sample L p logits = \<lparr>mem = logits, ret = Inr logits\<rparr>"
proof -
  let ?probs = "replicate (length logits) NaN"
  have v: "\<not> (fle p (Fin 0) \<or> fge p (Fin 1))"
    using assms(1,2) by (rule valid_p)
  have ne: "?probs \<noteq> []" using assms(3) by auto
  then have ne': "slices_Sort ?probs \<noteq> []"
    using mset_slices_Sort[of ?probs] by (metis mset_zero_iff)
  have "last (slices_Sort ?probs) \<in> set ?probs" using last_slices_Sort[OF ne] by blast
  then have l: "last (slices_Sort ?probs) = NaN" by simp
  show ?thesis
    using v ne' l by (simp add: MinP_Sample_def computeSoftmax_has_NaN[OF assms(3)] map_nth)
qed

lemma TopK_unfold:
  assumes "0 < k" "k < int (length logits)"
  shows "TopK_Sample L k logits =
           \<lparr>mem = exclude (drop (nat k) (ranked L logits)) logits,
            ret = Inr (exclude (drop (nat k) (ranked L logits)) logits)\<rparr>"
  using assms by (simp add: TopK_Sample_def ranked_def Let_def)

lemma TopK_leaves_NaN:
  assumes "sorts L" "0 < k" "k < int (length logits)"
  shows "NaN \<in> set (exclude (drop (nat k) (ranked L logits)) logits)"
proof -
  let ?d = "drop (nat k) (ranked L logits)"
  have "length ?d > 0" using assms sorts_length[OF assms(1), of logits] by simp
  then obtain j where j: "j \<in> set ?d" by (metis length_greater_0_conv last_in_set)
  then have "j \<in> set (ranked L logits)" by (meson in_set_dropD)
  then have jl: "j < length logits" using sorts_set[OF assms(1), of logits] by simp
  then have "exclude ?d logits ! j = NaN" using j by (simp add: exclude_nth)
  then show ?thesis using jl by (metis exclude_length nth_mem)
qed

text \<open>
  C10.  For a valid \<open>p\<close> (0 < p < 1) and a vector that holds the sentinel somewhere,
  \<open>TopP(p).Sample\<close> and \<open>MinP(p).Sample\<close> return the vector as it is: no position is
  overwritten.  So behind a TopK that excluded something (0 < k < length) a TopP or a
  MinP filters nothing: the pipeline returns what TopK alone returns.
\<close>

theorem filters_skip_contaminated:
  assumes "sorts L" "fgt p (Fin 0)" "flt p (Fin 1)" "NaN \<in> set logits"
  shows "TopP_Sample L p logits = \<lparr>mem = logits, ret = Inr logits\<rparr> \<and>
         MinP_Sample L p logits = \<lparr>mem = logits, ret = Inr logits\<rparr> \<and>
         (\<forall>k v. 0 < k \<and> k < int (length v) \<longrightarrow>
            Sample L v [TopK k, TopP p] = Sample L v [TopK k] \<and>
            Sample L v [TopK k, MinP p] = Sample L v [TopK k])"
proof -
  have "Sample L v [TopK k, TopP p] = Sample L v [TopK k] \<and>
        Sample L v [TopK k, MinP p] = Sample L v [TopK k]"
    if "0 < k" "k < int (length v)" for k v
    using TopK_leaves_NaN[OF assms(1) that] assms(1-3) that
    by (simp add: TopK_unfold TopP_has_NaN MinP_has_NaN)
  then show ?thesis
    using TopP_has_NaN[OF assms] MinP_has_NaN[OF assms(2-4)] by blast
qed

theorem filters_skip_contaminated_witness:
  "sorts exact_lib \<and> fgt (Fin (1 / 2)) (Fin 0) \<and> flt (Fin (1 / 2)) (Fin 1) \<and>
   NaN \<in> set [Fin 3, NaN, Fin 1] \<and>
   ret (TopP_Sample exact_lib (Fin (1 / 2)) [Fin 3, NaN, Fin 1]) = Inr [Fin 3, NaN, Fin 1] \<and>
   ret (MinP_Sample exact_lib (Fin (1 / 2)) [Fin 3, NaN, Fin 1]) = Inr [Fin 3, NaN, Fin 1]"
  using filters_skip_contaminated[OF sorts_exact_lib, of "Fin (1 / 2)" "[Fin 3, NaN, Fin 1]"]
        sorts_exact_lib
  by (simp add: fgt_def)

subsection \<open>Weighted selection\<close>

text \<open>
  C5.  \<open>weighed.Sample\<close> returns the error "no valid tokens found" if and only if every
  position of the input holds the sentinel.  When it returns a slice, that slice has
  one element, an index of the input whose position does not hold the sentinel.  The
  input slice is never written.  This holds for every draw \<open>Take\<close>.
\<close>

theorem weighed_valid_index:
  "(ret (weighed_Sample L logits) = Inl (Error ''no valid tokens found'') \<longleftrightarrow>
      (\<forall>x\<in>set logits. x = NaN)) \<and>
   mem (weighed_Sample L logits) = logits \<and>
   (\<forall>out. ret (weighed_Sample L logits) = Inr out \<longrightarrow>
      (\<exists>i<length logits. out = [Fin (real i)] \<and> logits ! i \<noteq> NaN))"
proof -
  let ?kept = "filter (\<lambda>i. \<not> isNaN (logits ! i)) [0..<length logits]"
  obtain ps where ps: "computeSoftmax L (map (\<lambda>i. logits ! i) ?kept) = Inr ps"
    using computeSoftmax_Inr by blast
  have empty: "?kept = [] \<longleftrightarrow> (\<forall>x\<in>set logits. x = NaN)"
    by (auto simp: filter_empty_conv isNaN_def all_set_conv_all_nth)
  have kept: "i < length logits \<and> logits ! i \<noteq> NaN" if "i \<in> set ?kept" for i
    using that by (auto simp: isNaN_def)
  show ?thesis
  proof (cases "?kept = []")
    case True
    then show ?thesis using empty by (simp add: weighed_Sample_def Let_def)
  next
    case False
    show ?thesis
    proof (cases "Take L ps")
      case NoDraw
      then show ?thesis using False empty ps by (simp add: weighed_Sample_def Let_def)
    next
      case DrawPanic
      then show ?thesis using False empty ps by (simp add: weighed_Sample_def Let_def)
    next
      case (Drawn v)
      show ?thesis
      proof (cases "v < length ?kept")
        case True
        then have "?kept ! v \<in> set ?kept" by (rule nth_mem)
        then have "?kept ! v < length logits \<and> logits ! (?kept ! v) \<noteq> NaN" by (rule kept)
        moreover have "weighed_Sample L logits =
                         \<lparr>mem = logits, ret = Inr [Fin (real (?kept ! v))]\<rparr>"
          using False ps Drawn True by (simp add: weighed_Sample_def Let_def)
        ultimately show ?thesis using False empty by auto
      next
        case no: False
        then show ?thesis using False empty ps Drawn by (simp add: weighed_Sample_def Let_def)
      qed
    qed
  qed
qed

lemma softmax_single: "computeSoftmax exact_lib [Fin 0] = Inr [Fin 1]"
  by (simp add: computeSoftmax_def floats_Sum_def floats_Scale_def)

theorem weighed_valid_index_witness:
  "ret (weighed_Sample exact_lib [NaN, Fin 0]) = Inr [Fin 1] \<and>
   ret (weighed_Sample exact_lib [NaN, NaN]) = Inl (Error ''no valid tokens found'')"
  using weighed_valid_index[of exact_lib "[NaN, Fin 0]"]
        weighed_valid_index[of exact_lib "[NaN, NaN]"]
  by (simp add: weighed_Sample_def isNaN_def softmax_single first_positive_def Let_def)

subsection \<open>Invalid configuration\<close>

lemma outside_closed_range:
  "(flt t (Fin 0) \<or> fgt t (Fin 2)) \<longleftrightarrow> t \<noteq> NaN \<and> \<not> (fle (Fin 0) t \<and> fle t (Fin 2))"
  by (cases t) (auto simp: fle_def fgt_def)

lemma outside_open_range:
  "(fle p (Fin 0) \<or> fge p (Fin 1)) \<longleftrightarrow> p \<noteq> NaN \<and> \<not> (flt (Fin 0) p \<and> flt p (Fin 1))"
  by (cases p) (auto simp: fle_def fge_def)

lemma Temperature_error_iff:
  "ret (Temperature_Sample L t v) = Inl (Error ''temperature must be between 0 and 2'') \<longleftrightarrow>
     flt t (Fin 0) \<or> fgt t (Fin 2)"
  by (auto simp: Temperature_Sample_def floats_Max_def MaxIdx_def Let_def
           split: sum.splits if_splits)

lemma TopK_error_iff:
  "ret (TopK_Sample L k v) = Inl (Error ''k must be positive'') \<longleftrightarrow> k \<le> 0"
  by (auto simp: TopK_Sample_def Let_def)

lemma TopP_error_iff:
  "ret (TopP_Sample L p v) = Inl (Error ''p must be between 0 and 1'') \<longleftrightarrow>
     fle p (Fin 0) \<or> fge p (Fin 1)"
  using computeSoftmax_Inr[of L v]
  by (auto simp: TopP_Sample_def Let_def)

lemma MinP_error_iff:
  "ret (MinP_Sample L p v) = Inl (Error ''p must be between 0 and 1'') \<longleftrightarrow>
     fle p (Fin 0) \<or> fge p (Fin 1)"
  using computeSoftmax_Inr[of L v]
  by (auto simp: MinP_Sample_def Let_def split: if_splits)

lemma error_keeps_mem:
  "flt t (Fin 0) \<or> fgt t (Fin 2) \<Longrightarrow> mem (Temperature_Sample L t v) = v"
  "k \<le> 0 \<Longrightarrow> mem (TopK_Sample L k v) = v"
  "fle p (Fin 0) \<or> fge p (Fin 1) \<Longrightarrow> mem (TopP_Sample L p v) = v"
  "fle p (Fin 0) \<or> fge p (Fin 1) \<Longrightarrow> mem (MinP_Sample L p v) = v"
  by (auto simp: Temperature_Sample_def TopK_Sample_def TopP_Sample_def MinP_Sample_def)

text \<open>
  For a parameter that is a number the checks are the ranges: each sampler returns
  its own error exactly when the parameter is outside its range, and then the input
  vector is what it was.
\<close>

lemma range_checks_on_numbers:
  "(ret (Temperature_Sample L t v) = Inl (Error ''temperature must be between 0 and 2'') \<longleftrightarrow>
      t \<noteq> NaN \<and> \<not> (fle (Fin 0) t \<and> fle t (Fin 2))) \<and>
   (ret (TopK_Sample L k v) = Inl (Error ''k must be positive'') \<longleftrightarrow> k \<le> 0) \<and>
   (ret (TopP_Sample L p v) = Inl (Error ''p must be between 0 and 1'') \<longleftrightarrow>
      p \<noteq> NaN \<and> \<not> (flt (Fin 0) p \<and> flt p (Fin 1))) \<and>
   (ret (MinP_Sample L p v) = Inl (Error ''p must be between 0 and 1'') \<longleftrightarrow>
      p \<noteq> NaN \<and> \<not> (flt (Fin 0) p \<and> flt p (Fin 1)))"
  by (simp add: Temperature_error_iff TopK_error_iff TopP_error_iff MinP_error_iff
        outside_closed_range outside_open_range)

lemma TopP_loop_NaN: "TopP_loop L NaN probs idxs c logits = logits"
  by (induction idxs arbitrary: c) (simp_all add: fgt_def)

text \<open>
  C6.  The checks are comparisons, and every comparison with NaN is false.  NaN is
  in neither range, yet no sampler rejects it: \<open>Temperature(NaN).Sample\<close> on
  [1.0, 2.0] returns no error and turns both scores into NaN, and \<open>TopP(NaN).Sample\<close>
  and \<open>MinP(NaN).Sample\<close> return the vector they were given.
\<close>

theorem NaN_parameter_accepted:
  "\<not> (fle (Fin 0) NaN \<and> fle NaN (Fin 2)) \<and>
   \<not> (flt (Fin 0) NaN \<and> flt NaN (Fin 1)) \<and>
   Temperature_Sample exact_lib NaN [Fin 1, Fin 2] = \<lparr>mem = [NaN, NaN], ret = Inr [NaN, NaN]\<rparr> \<and>
   TopP_Sample L NaN logits = \<lparr>mem = logits, ret = Inr logits\<rparr> \<and>
   MinP_Sample L NaN (x # logits) = \<lparr>mem = x # logits, ret = Inr (x # logits)\<rparr>"
proof (intro conjI)
  show "\<not> (fle (Fin 0) NaN \<and> fle NaN (Fin 2))" by (simp add: fle_def)
  show "\<not> (flt (Fin 0) NaN \<and> flt NaN (Fin 1))" by simp
  show "Temperature_Sample exact_lib NaN [Fin 1, Fin 2] =
          \<lparr>mem = [NaN, NaN], ret = Inr [NaN, NaN]\<rparr>"
    by (simp add: fgt_def Temperature_Sample_def floats_Max_def MaxIdx_def isNaN_def
          math_Max_def Let_def)
  obtain ps where ps: "computeSoftmax L logits = Inr ps" using computeSoftmax_Inr by blast
  then show "TopP_Sample L NaN logits = \<lparr>mem = logits, ret = Inr logits\<rparr>"
    by (simp add: TopP_Sample_def fle_def fge_def TopP_loop_NaN Let_def)
  obtain qs where qs: "computeSoftmax L (x # logits) = Inr qs" "length qs = length (x # logits)"
    using computeSoftmax_Inr by blast
  then have "qs \<noteq> []" by auto
  then have ne: "slices_Sort qs \<noteq> []" using mset_slices_Sort[of qs] by (metis mset_zero_iff)
  have "map (\<lambda>i. (x # logits) ! i) [0..<length (x # logits)] = x # logits" by (rule map_nth)
  then show "MinP_Sample L NaN (x # logits) = \<lparr>mem = x # logits, ret = Inr (x # logits)\<rparr>"
    using qs ne by (simp add: MinP_Sample_def fle_def fge_def Let_def del: upt_Suc)
qed

subsection \<open>TopK\<close>

lemma ranked_split:
  assumes "sorts L" "0 < k" "k < int (length v)"
  shows "set (take (nat k) (ranked L v)) \<union> set (drop (nat k) (ranked L v)) = {0..<length v}"
    and "set (take (nat k) (ranked L v)) \<inter> set (drop (nat k) (ranked L v)) = {}"
    and "card (set (take (nat k) (ranked L v))) = nat k"
    and "\<forall>i\<in>set (take (nat k) (ranked L v)). \<forall>j\<in>set (drop (nat k) (ranked L v)).
           \<not> cmpLess (v ! i) (v ! j)"
proof -
  let ?r = "ranked L v"
  have r: "?r = take (nat k) ?r @ drop (nat k) ?r" by simp
  show "set (take (nat k) ?r) \<union> set (drop (nat k) ?r) = {0..<length v}"
    using sorts_set[OF assms(1), of v] by (metis r set_append)
  have d: "distinct ?r" using assms(1) by (rule sorts_distinct)
  then show "set (take (nat k) ?r) \<inter> set (drop (nat k) ?r) = {}"
    by (metis r distinct_append)
  have "distinct (take (nat k) ?r)" using d by simp
  then have "card (set (take (nat k) ?r)) = length (take (nat k) ?r)" by (rule distinct_card)
  then show "card (set (take (nat k) ?r)) = nat k"
    using sorts_length[OF assms(1), of v] assms(2,3) by simp
  have "sorted_wrt (\<lambda>a b. 0 \<le> Compare (v ! a) (v ! b)) (take (nat k) ?r @ drop (nat k) ?r)"
    using assms(1) by (simp add: sorts_def)
  then have "\<forall>i\<in>set (take (nat k) ?r). \<forall>j\<in>set (drop (nat k) ?r). 0 \<le> Compare (v ! i) (v ! j)"
    unfolding sorted_wrt_append by blast
  then show "\<forall>i\<in>set (take (nat k) ?r). \<forall>j\<in>set (drop (nat k) ?r). \<not> cmpLess (v ! i) (v ! j)"
    by (simp add: Compare_nonneg_iff)
qed

lemma cmpLess_NaN_left: "\<not> cmpLess NaN y \<Longrightarrow> y = NaN"
  by (simp add: cmpLess_def isNaN_def)

lemma flt_cmpLess: "flt x y \<Longrightarrow> cmpLess x y"
  by (simp add: cmpLess_def)

lemma kept_are_numbers:
  assumes "sorts L" "0 < k" "k < int (length v)"
      and enough: "nat k \<le> length (filter (\<lambda>x. \<not> isNaN x) v)"
      and i: "i \<in> set (take (nat k) (ranked L v))"
  shows "v ! i \<noteq> NaN"
proof
  assume nan: "v ! i = NaN"
  let ?K = "set (take (nat k) (ranked L v))" and ?D = "set (drop (nat k) (ranked L v))"
  note s = ranked_split[OF assms(1-3)]
  have D: "v ! j = NaN" if "j \<in> ?D" for j
  proof -
    have "\<not> cmpLess (v ! i) (v ! j)" using s(4) i that by blast
    then show ?thesis using nan by (simp add: cmpLess_NaN_left)
  qed
  have "{j. j < length v \<and> \<not> isNaN (v ! j)} \<subseteq> ?K - {i}"
  proof
    fix j assume "j \<in> {j. j < length v \<and> \<not> isNaN (v ! j)}"
    then have j: "j < length v" "v ! j \<noteq> NaN" by (simp_all add: isNaN_def)
    then have "j \<notin> ?D" using D by blast
    moreover have "j \<in> ?K \<union> ?D" using s(1) j(1) by simp
    ultimately show "j \<in> ?K - {i}" using nan j(2) by auto
  qed
  then have "card {j. j < length v \<and> \<not> isNaN (v ! j)} \<le> card (?K - {i})"
    by (simp add: card_mono)
  also have "\<dots> < card ?K" using i by (intro card_Diff1_less) auto
  finally have "card {j. j < length v \<and> \<not> isNaN (v ! j)} < nat k" using s(3) by simp
  then show False using enough by (simp add: length_filter_conv_card)
qed

text \<open>
  C2, as the code has it.  For a positive \<open>k\<close>: if \<open>k\<close> is at least the length of the
  vector, \<open>TopK(k).Sample\<close> returns the vector unchanged.  If \<open>k\<close> is below the length
  and the vector holds at least \<open>k\<close> scores that are not the sentinel (as every
  sentinel-free vector does), the result has the same length and exactly \<open>k\<close>
  positions that do not hold the sentinel; each of them holds its original score, and
  no excluded position had a score above that of a kept one.
\<close>

theorem TopK_keeps_largest:
  assumes "sorts L" "0 < k"
  shows "(int (length v) \<le> k \<longrightarrow> TopK_Sample L k v = \<lparr>mem = v, ret = Inr v\<rparr>) \<and>
         (k < int (length v) \<and> nat k \<le> length (filter (\<lambda>x. \<not> isNaN x) v) \<longrightarrow>
            (\<exists>out. TopK_Sample L k v = \<lparr>mem = out, ret = Inr out\<rparr> \<and>
                   length out = length v \<and>
                   length (filter (\<lambda>x. x \<noteq> NaN) out) = nat k \<and>
                   (\<forall>i<length v. out ! i \<noteq> NaN \<longrightarrow> out ! i = v ! i) \<and>
                   (\<forall>i<length v. \<forall>j<length v.
                      out ! i \<noteq> NaN \<and> out ! j = NaN \<longrightarrow> \<not> flt (v ! i) (v ! j))))"
proof (intro conjI impI)
  assume "int (length v) \<le> k"
  then show "TopK_Sample L k v = \<lparr>mem = v, ret = Inr v\<rparr>"
    using assms(2) by (simp add: TopK_Sample_def)
next
  assume a: "k < int (length v) \<and> nat k \<le> length (filter (\<lambda>x. \<not> isNaN x) v)"
  then have kl: "k < int (length v)" and enough: "nat k \<le> length (filter (\<lambda>x. \<not> isNaN x) v)"
    by simp_all
  let ?K = "set (take (nat k) (ranked L v))" and ?D = "set (drop (nat k) (ranked L v))"
  let ?out = "exclude (drop (nat k) (ranked L v)) v"
  note s = ranked_split[OF assms kl]
  have out: "?out ! i = (if i \<in> ?D then NaN else v ! i)" if "i < length v" for i
    using that by (rule exclude_nth)
  have num: "v ! i \<noteq> NaN" if "i \<in> ?K" for i
    using kept_are_numbers[OF assms kl enough that] .
  have kept: "{i. i < length v \<and> ?out ! i \<noteq> NaN} = ?K"
  proof (intro set_eqI iffI)
    fix i assume "i \<in> {i. i < length v \<and> ?out ! i \<noteq> NaN}"
    then have i: "i < length v" "?out ! i \<noteq> NaN" by simp_all
    then have "i \<notin> ?D" using out[of i] by (simp split: if_splits)
    moreover have "i \<in> ?K \<union> ?D" using s(1) i(1) by simp
    ultimately show "i \<in> ?K" by blast
  next
    fix i assume i: "i \<in> ?K"
    then have "i \<in> ?K \<union> ?D" by blast
    then have il: "i < length v" unfolding s(1) by simp
    have "i \<notin> ?D" using s(2) i by blast
    then have "?out ! i = v ! i" using out[OF il] by simp
    then show "i \<in> {i. i < length v \<and> ?out ! i \<noteq> NaN}" using il num[OF i] by simp
  qed
  have largest: "\<not> flt (v ! i) (v ! j)"
    if i: "i < length v" and j: "j < length v" and ij: "?out ! i \<noteq> NaN \<and> ?out ! j = NaN"
    for i j
  proof -
    have "i \<in> {i. i < length v \<and> ?out ! i \<noteq> NaN}" using i ij by simp
    then have "i \<in> ?K" unfolding kept .
    moreover have "j \<notin> {i. i < length v \<and> ?out ! i \<noteq> NaN}" using ij by simp
    then have "j \<notin> ?K" unfolding kept .
    moreover have "j \<in> ?K \<union> ?D" using s(1) j by simp
    ultimately have "i \<in> ?K" "j \<in> ?D" by blast+
    then have "\<not> cmpLess (v ! i) (v ! j)" using s(4) by blast
    then show ?thesis using flt_cmpLess by blast
  qed
  show "\<exists>out. TopK_Sample L k v = \<lparr>mem = out, ret = Inr out\<rparr> \<and>
                   length out = length v \<and>
                   length (filter (\<lambda>x. x \<noteq> NaN) out) = nat k \<and>
                   (\<forall>i<length v. out ! i \<noteq> NaN \<longrightarrow> out ! i = v ! i) \<and>
                   (\<forall>i<length v. \<forall>j<length v.
                      out ! i \<noteq> NaN \<and> out ! j = NaN \<longrightarrow> \<not> flt (v ! i) (v ! j))"
  proof (intro exI[of _ ?out] conjI allI impI)
    show "TopK_Sample L k v = \<lparr>mem = ?out, ret = Inr ?out\<rparr>"
      using assms(2) kl by (rule TopK_unfold)
    show "length ?out = length v" by simp
    show "length (filter (\<lambda>x. x \<noteq> NaN) ?out) = nat k"
      using kept s(3) by (simp add: length_filter_conv_card)
    show "?out ! i = v ! i" if "i < length v" "?out ! i \<noteq> NaN" for i
      using that out[of i] by (simp split: if_splits)
    show "\<not> flt (v ! i) (v ! j)"
      if "i < length v" "j < length v" "?out ! i \<noteq> NaN \<and> ?out ! j = NaN" for i j
      using that by (rule largest)
  qed
qed

text \<open>On [1.0, 5.0, 3.0], TopK(2) keeps 5.0 and 3.0; TopK(3) changes nothing.\<close>

lemma ranked_1_5_3: "ranked exact_lib [Fin 1, Fin 5, Fin 3] = [1, 2, 0]"
  by (simp add: ranked_def insertionSortCmpFunc_def insertionSort_def Compare_def
          isNaN_def fgt_def upt_rec)

lemma TopK_2_of_1_5_3: "TopK_Sample exact_lib 2 [Fin 1, Fin 5, Fin 3] = \<lparr>mem = [NaN, Fin 5, Fin 3], ret = Inr [NaN, Fin 5, Fin 3]\<rparr>"
  using ranked_1_5_3 by (simp add: TopK_Sample_def ranked_def exclude_def Let_def)

theorem TopK_keeps_largest_witness:
  "sorts exact_lib \<and> (0::int) < 2 \<and> (2::int) < int (length [Fin 1, Fin 5, Fin 3]) \<and>
   nat 2 \<le> length (filter (\<lambda>x. \<not> isNaN x) [Fin 1, Fin 5, Fin 3]) \<and>
   TopK_Sample exact_lib 2 [Fin 1, Fin 5, Fin 3] = \<lparr>mem = [NaN, Fin 5, Fin 3], ret = Inr [NaN, Fin 5, Fin 3]\<rparr> \<and>
   TopK_Sample exact_lib 3 [Fin 1, Fin 5, Fin 3] = \<lparr>mem = [Fin 1, Fin 5, Fin 3], ret = Inr [Fin 1, Fin 5, Fin 3]\<rparr>"
  using TopK_keeps_largest[OF sorts_exact_lib, of 2 "[Fin 1, Fin 5, Fin 3]"]
        TopK_keeps_largest[OF sorts_exact_lib, of 3 "[Fin 1, Fin 5, Fin 3]"]
        sorts_exact_lib TopK_2_of_1_5_3
  by (simp add: isNaN_def)

text \<open>
  The specification's wording, for every vector and every integer \<open>k\<close>, fails in two
  places.  \<open>TopK(0).Sample\<close> on the empty
  vector has \<open>k\<close> at least the length and returns the error, not the vector.  And on
  [NaN, NaN, 1.0], TopK(2) ranks the two sentinels behind 1.0, excludes one of them
  and leaves one position that does not hold the sentinel, not two.
\<close>

lemma ranked_NaN_NaN_1: "ranked exact_lib [NaN, NaN, Fin 1] = [2, 0, 1]"
  by (simp add: ranked_def insertionSortCmpFunc_def insertionSort_def Compare_def
          isNaN_def fgt_def upt_rec)

theorem TopK_keeps_largest_counterexample:
  "int (length ([]::f64 list)) \<le> 0 \<and>
   TopK_Sample exact_lib 0 [] = \<lparr>mem = [], ret = Inl (Error ''k must be positive'')\<rparr> \<and>
   (0::int) < 2 \<and> 2 < int (length [NaN, NaN, Fin 1]) \<and>
   TopK_Sample exact_lib 2 [NaN, NaN, Fin 1] = \<lparr>mem = [NaN, NaN, Fin 1], ret = Inr [NaN, NaN, Fin 1]\<rparr> \<and>
   length (filter (\<lambda>x. x \<noteq> NaN) [NaN, NaN, Fin 1]) \<noteq> nat 2"
  using ranked_NaN_NaN_1 by (simp add: TopK_Sample_def ranked_def exclude_def Let_def)

subsection \<open>MinP\<close>

lemma not_cmpLess_fle: "m \<noteq> NaN \<Longrightarrow> q \<noteq> NaN \<Longrightarrow> \<not> cmpLess m q \<Longrightarrow> fle q m"
  by (cases m; cases q) (auto simp: cmpLess_def isNaN_def fle_def)

lemma MinP_unfold:
  assumes "fgt p (Fin 0)" "flt p (Fin 1)" "computeSoftmax L logits = Inr probs" "logits \<noteq> []"
  shows "MinP_Sample L p logits =
          \<lparr>mem = map (\<lambda>i. if flt (probs ! i) (fmul L p (last (slices_Sort probs))) then NaN
                              else logits ! i) [0..<length logits],
           ret = Inr (map (\<lambda>i. if flt (probs ! i) (fmul L p (last (slices_Sort probs))) then NaN
                              else logits ! i) [0..<length logits])\<rparr>"
proof -
  have v: "\<not> (fle p (Fin 0) \<or> fge p (Fin 1))" using assms(1,2) by (rule valid_p)
  have len: "length probs = length logits"
    using computeSoftmax_Inr[of L logits] assms(3) by simp
  then have "probs \<noteq> []" using assms(4) by auto
  then have "slices_Sort probs \<noteq> []" using mset_slices_Sort[of probs] by (metis mset_zero_iff)
  then show ?thesis using v len assms(3) by (simp add: MinP_Sample_def Let_def)
qed

text \<open>
  C4.  For a valid \<open>p\<close> and a non-empty vector, \<open>MinP(p).Sample\<close> overwrites with the
  sentinel exactly the positions whose probability (as \<open>computeSoftmax\<close> gives it) is
  strictly below \<open>p\<close> times \<open>m\<close>, where \<open>m\<close> is a maximum of the probabilities: one of
  them, with none above it.  Every other position, one whose probability equals the
  threshold included, keeps its score.  On the empty vector nothing is written (the
  call panics at the read of the last element of the sorted copy).
\<close>

theorem MinP_threshold:
  assumes "fgt p (Fin 0)" "flt p (Fin 1)" "computeSoftmax L logits = Inr probs"
  shows "(logits \<noteq> [] \<longrightarrow>
           (\<exists>m out. m \<in> set probs \<and> (\<forall>q\<in>set probs. \<not> cmpLess m q) \<and>
              (NaN \<notin> set probs \<longrightarrow> (\<forall>q\<in>set probs. fle q m)) \<and>
              MinP_Sample L p logits = \<lparr>mem = out, ret = Inr out\<rparr> \<and>
              length out = length logits \<and>
              (\<forall>i<length logits.
                 out ! i = (if flt (probs ! i) (fmul L p m) then NaN else logits ! i)) \<and>
              (\<forall>i<length logits. probs ! i = fmul L p m \<longrightarrow> out ! i = logits ! i))) \<and>
         (logits = [] \<longrightarrow> mem (MinP_Sample L p logits) = [])"
proof (intro conjI impI)
  assume ne: "logits \<noteq> []"
  let ?m = "last (slices_Sort probs)"
  let ?out = "map (\<lambda>i. if flt (probs ! i) (fmul L p ?m) then NaN else logits ! i)
                [0..<length logits]"
  have len: "length probs = length logits"
    using computeSoftmax_Inr[of L logits] assms(3) by simp
  then have pne: "probs \<noteq> []" using ne by auto
  have mx: "?m \<in> set probs" "\<forall>q\<in>set probs. \<not> cmpLess ?m q"
    using last_slices_Sort[OF pne] by simp_all
  show "\<exists>m out. m \<in> set probs \<and> (\<forall>q\<in>set probs. \<not> cmpLess m q) \<and>
              (NaN \<notin> set probs \<longrightarrow> (\<forall>q\<in>set probs. fle q m)) \<and>
              MinP_Sample L p logits = \<lparr>mem = out, ret = Inr out\<rparr> \<and>
              length out = length logits \<and>
              (\<forall>i<length logits.
                 out ! i = (if flt (probs ! i) (fmul L p m) then NaN else logits ! i)) \<and>
              (\<forall>i<length logits. probs ! i = fmul L p m \<longrightarrow> out ! i = logits ! i)"
  proof (intro exI[of _ ?m] exI[of _ ?out] conjI allI impI ballI)
    show "?m \<in> set probs" by (rule mx(1))
    show "\<not> cmpLess ?m q" if "q \<in> set probs" for q using mx(2) that by blast
    show "fle q ?m" if "NaN \<notin> set probs" "q \<in> set probs" for q
    proof -
      have "?m \<noteq> NaN" "q \<noteq> NaN" using that mx(1) by auto
      moreover have "\<not> cmpLess ?m q" using mx(2) that(2) by blast
      ultimately show ?thesis by (rule not_cmpLess_fle)
    qed
    show "MinP_Sample L p logits = \<lparr>mem = ?out, ret = Inr ?out\<rparr>"
      using assms ne by (rule MinP_unfold)
    show "length ?out = length logits" by simp
    show "?out ! i = (if flt (probs ! i) (fmul L p ?m) then NaN else logits ! i)"
      if "i < length logits" for i using that by simp
    show "?out ! i = logits ! i" if "i < length logits" "probs ! i = fmul L p ?m" for i
      using that by simp
  qed
next
  assume "logits = []"
  then show "mem (MinP_Sample L p logits) = []"
    by (simp add: MinP_Sample_def computeSoftmax_def floats_Scale_def slices_Sort_def
          insertionSort_def Let_def)
qed

text \<open>
  Scores ln 4, ln 2 and 0 have the probabilities 4/7, 2/7 and 1/7.  With p = 1/2 the
  threshold is 2/7: the second position sits exactly on it and stays, the third goes.
\<close>

lemma softmax_4_2_1:
  "computeSoftmax exact_lib [Fin (ln 4), Fin (ln 2), Fin 0] = Inr [Fin (4 / 7), Fin (2 / 7), Fin (1 / 7)]"
  by (simp add: computeSoftmax_def floats_Sum_def floats_Scale_def)

lemma MinP_4_2_1:
  "MinP_Sample exact_lib (Fin (1 / 2)) [Fin (ln 4), Fin (ln 2), Fin 0] =
     \<lparr>mem = [Fin (ln 4), Fin (ln 2), NaN], ret = Inr [Fin (ln 4), Fin (ln 2), NaN]\<rparr>"
  by (simp add: MinP_Sample_def softmax_4_2_1 slices_Sort_def insertionSort_def cmpLess_def
        isNaN_def fle_def fge_def Let_def upt_rec)

theorem MinP_threshold_witness:
  "fgt (Fin (1 / 2)) (Fin 0) \<and> flt (Fin (1 / 2)) (Fin 1) \<and>
   computeSoftmax exact_lib [Fin (ln 4), Fin (ln 2), Fin 0]
     = Inr [Fin (4 / 7), Fin (2 / 7), Fin (1 / 7)] \<and>
   MinP_Sample exact_lib (Fin (1 / 2)) [Fin (ln 4), Fin (ln 2), Fin 0] =
     \<lparr>mem = [Fin (ln 4), Fin (ln 2), NaN], ret = Inr [Fin (ln 4), Fin (ln 2), NaN]\<rparr>"
  using MinP_threshold[of "Fin (1 / 2)" exact_lib "[Fin (ln 4), Fin (ln 2), Fin 0]"
          "[Fin (4 / 7), Fin (2 / 7), Fin (1 / 7)]"]
        softmax_4_2_1 MinP_4_2_1
  by (simp add: fgt_def)

subsection \<open>TopP\<close>

lemma TopP_loop_cut:
  assumes "0 < m" "m \<le> length idxs"
      and "fgt (foldl (fadd L) c (map (\<lambda>i. probs ! i) (take m idxs))) p"
      and "\<forall>j. 0 < j \<and> j < m \<longrightarrow> \<not> fgt (foldl (fadd L) c (map (\<lambda>i. probs ! i) (take j idxs))) p"
  shows "TopP_loop L p probs idxs c logits = exclude (drop m idxs) logits"
  using assms
proof (induction idxs arbitrary: c m)
  case Nil
  then show ?case by simp
next
  case (Cons idx rest)
  let ?c = "fadd L c (probs ! idx)"
  show ?case
  proof (cases m)
    case 0
    then show ?thesis using Cons.prems(1) by simp
  next
    case (Suc m')
    show ?thesis
    proof (cases m')
      case 0
      then have "fgt ?c p" using Cons.prems(3) Suc by simp
      then show ?thesis using Suc 0 by simp
    next
      case (Suc m'')
      have "0 < (1::nat) \<and> 1 < m" using \<open>m = Suc m'\<close> Suc by simp
      then have "\<not> fgt (foldl (fadd L) c (map (\<lambda>i. probs ! i) (take 1 (idx # rest)))) p"
        using Cons.prems(4) by blast
      then have step: "\<not> fgt ?c p" by simp
      have "TopP_loop L p probs rest ?c logits = exclude (drop m' rest) logits"
      proof (rule Cons.IH)
        show "0 < m'" using Suc by simp
        show "m' \<le> length rest" using Cons.prems(2) \<open>m = Suc m'\<close> by simp
        show "fgt (foldl (fadd L) ?c (map (\<lambda>i. probs ! i) (take m' rest))) p"
          using Cons.prems(3) \<open>m = Suc m'\<close> by simp
        show "\<forall>j. 0 < j \<and> j < m' \<longrightarrow>
                \<not> fgt (foldl (fadd L) ?c (map (\<lambda>i. probs ! i) (take j rest))) p"
        proof (intro allI impI)
          fix j assume j: "0 < j \<and> j < m'"
          then have "0 < Suc j \<and> Suc j < m" using \<open>m = Suc m'\<close> by simp
          then have "\<not> fgt (foldl (fadd L) c (map (\<lambda>i. probs ! i) (take (Suc j) (idx # rest)))) p"
            using Cons.prems(4) by blast
          then show "\<not> fgt (foldl (fadd L) ?c (map (\<lambda>i. probs ! i) (take j rest))) p" by simp
        qed
      qed
      then show ?thesis using step \<open>m = Suc m'\<close> by simp
    qed
  qed
qed

lemma TopP_unfold:
  assumes "fgt p (Fin 0)" "flt p (Fin 1)" "computeSoftmax L logits = Inr probs"
  shows "TopP_Sample L p logits =
          \<lparr>mem = TopP_loop L p probs (ranked L probs) (Fin 0) logits,
           ret = Inr (TopP_loop L p probs (ranked L probs) (Fin 0) logits)\<rparr>"
  using valid_p[OF assms(1,2)] assms(3) by (simp add: TopP_Sample_def ranked_def Let_def)

lemma mass_Nil [simp]: "mass L probs [] = Fin 0"
  by (simp add: mass_def)

lemma not_fgt_zero: "fgt p (Fin 0) \<Longrightarrow> \<not> fgt (Fin 0) p"
  by (cases p) (simp_all add: fgt_def)

lemma mass_contaminated:
  assumes "fgt p (Fin 0)" "\<forall>i\<in>set idxs. i < n"
  shows "\<not> fgt (mass L (replicate n NaN) idxs) p"
proof (cases idxs)
  case Nil
  then show ?thesis using assms(1) by (simp add: not_fgt_zero)
next
  case (Cons i rest)
  have "NaN \<in> set (map (\<lambda>i. replicate n NaN ! i) idxs)" using Cons assms(2) by simp
  then have "mass L (replicate n NaN) idxs = NaN"
    unfolding mass_def by (rule foldl_fadd_has_NaN)
  then show ?thesis by (simp add: fgt_def)
qed

lemma crossing_sentinel_free:
  assumes "sorts L" "fgt p (Fin 0)" "computeSoftmax L logits = Inr probs"
      and "fgt (mass L probs (take j (ranked L probs))) p"
  shows "NaN \<notin> set logits"
proof
  assume nan: "NaN \<in> set logits"
  then have probs: "probs = replicate (length logits) NaN"
    using computeSoftmax_has_NaN[OF nan, of L] assms(3) by simp
  have "\<forall>i\<in>set (take j (ranked L probs)). i < length logits"
  proof
    fix i assume "i \<in> set (take j (ranked L probs))"
    then have "i \<in> set (ranked L probs)" by (rule in_set_takeD)
    then show "i < length logits" using sorts_set[OF assms(1), of probs] probs by simp
  qed
  then have "\<not> fgt (mass L (replicate (length logits) NaN) (take j (ranked L probs))) p"
    using assms(2) by (intro mass_contaminated)
  then show False using assms(4) probs by simp
qed


lemma finite_scores:
  assumes "\<forall>x\<in>set v. isFinite x"
  shows "v = map Fin (map (\<lambda>x. case x of Fin r \<Rightarrow> r | _ \<Rightarrow> 0) v)"
  using assms by (induction v) (auto simp: isFinite_def split: f64.splits)

lemma exact_sum:
  "exact L \<Longrightarrow> foldl (fadd L) (Fin a) (map Fin xs) = Fin (a + sum_list xs)"
  by (induction xs arbitrary: a) (simp_all add: exact_def add.assoc)

lemma sum_list_exp_pos: "rs \<noteq> [] \<Longrightarrow> 0 < sum_list (map exp rs)" for rs :: "real list"
proof (induction rs)
  case Nil
  then show ?case by simp
next
  case (Cons r rs)
  have "0 \<le> sum_list (map exp rs)" by (rule sum_list_nonneg) auto
  moreover have "0 < exp r" by simp
  ultimately show ?case by (simp add: add_pos_nonneg)
qed

lemma exact_softmax:
  assumes "exact L" "rs \<noteq> []"
  shows "computeSoftmax L (map Fin rs) =
           Inr (map (\<lambda>r. Fin (exp r * (1 / sum_list (map exp rs)))) rs)"
proof -
  let ?S = "sum_list (map exp rs)"
  have e: "map (fexp L) (map Fin rs) = map Fin (map exp rs)"
    using assms(1) by (simp add: exact_def)
  have S: "floats_Sum L (map Fin (map exp rs)) = Fin ?S"
    unfolding floats_Sum_def using exact_sum[OF assms(1), of 0 "map exp rs"] by simp
  have "?S \<noteq> 0" using sum_list_exp_pos[OF assms(2)] by simp
  then have d: "fdiv L (Fin 1) (Fin ?S) = Fin (1 / ?S)" using assms(1) by (simp add: exact_def)
  show ?thesis
    unfolding computeSoftmax_def e S Let_def d floats_Scale_def
    using assms(1) by (simp add: exact_def)
qed

lemma sum_list_perm:
  fixes g :: "nat \<Rightarrow> real"
  assumes "mset idx = mset [0..<n]"
  shows "sum_list (map g idx) = sum_list (map g [0..<n])"
proof -
  have "mset (map g idx) = mset (map g [0..<n])" using assms by (metis mset_map)
  then show ?thesis by (metis sum_mset_sum_list)
qed

lemma exact_mass_total:
  assumes "sorts L" "exact L" "rs \<noteq> []"
      and "computeSoftmax L (map Fin rs) = Inr probs"
  shows "mass L probs (ranked L probs) = Fin 1"
proof -
  let ?S = "sum_list (map exp rs)"
  let ?f = "\<lambda>r. exp r * (1 / ?S)"
  have probs: "probs = map (\<lambda>r. Fin (?f r)) rs"
    using exact_softmax[OF assms(2,3)] assms(4) by simp
  then have len: "length probs = length rs" by simp
  have perm: "mset (ranked L probs) = mset [0..<length rs]"
    using assms(1) len by (simp add: sorts_def)
  have inr: "\<forall>i\<in>set (ranked L probs). i < length rs"
    using sorts_set[OF assms(1), of probs] len by simp
  have eq: "map (\<lambda>i. probs ! i) (ranked L probs) =
            map Fin (map (\<lambda>i. ?f (rs ! i)) (ranked L probs))"
    using inr probs by simp
  have "mass L probs (ranked L probs) =
          foldl (fadd L) (Fin 0) (map Fin (map (\<lambda>i. ?f (rs ! i)) (ranked L probs)))"
    unfolding mass_def eq ..
  also have "\<dots> = Fin (0 + sum_list (map (\<lambda>i. ?f (rs ! i)) (ranked L probs)))"
    using assms(2) by (rule exact_sum)
  also have "sum_list (map (\<lambda>i. ?f (rs ! i)) (ranked L probs)) =
             sum_list (map (\<lambda>i. ?f (rs ! i)) [0..<length rs])"
    using perm by (rule sum_list_perm)
  also have "map (\<lambda>i. ?f (rs ! i)) [0..<length rs] = map ?f rs"
    by (rule nth_equalityI) simp_all
  also have "sum_list (map ?f rs) = ?S * (1 / ?S)"
    by (simp only: sum_list_mult_const)
  also have "\<dots> = 1" using sum_list_exp_pos[OF assms(3)] by simp
  finally show ?thesis by simp
qed

lemma ranked_take_drop:
  assumes "sorts L" "length v = n" "i < n"
  shows "i \<in> set (drop m (ranked L v)) \<longleftrightarrow> i \<notin> set (take m (ranked L v))"
proof -
  let ?r = "ranked L v"
  have r: "take m ?r @ drop m ?r = ?r" by (rule append_take_drop_id)
  have "distinct ?r" using assms(1) by (rule sorts_distinct)
  then have "distinct (take m ?r @ drop m ?r)" unfolding r .
  then have disj: "set (take m ?r) \<inter> set (drop m ?r) = {}" unfolding distinct_append by (rule conjunct2[THEN conjunct2])
  have "i \<in> set ?r" using sorts_set[OF assms(1), of v] assms(2,3) by simp
  then have "i \<in> set (take m ?r @ drop m ?r)" unfolding r .
  then have "i \<in> set (take m ?r) \<union> set (drop m ?r)" unfolding set_append .
  then show ?thesis using disj by blast
qed

text \<open>
  C3, as the code has it.  Let \<open>p\<close> be valid and let the positions be ranked by
  descending probability (\<open>ranked\<close>, a sorted permutation by the contract of
  SortFunc).  Suppose the probability accumulated along the ranking exceeds \<open>p\<close> after
  some number of positions; without rounding this is so for every non-empty vector
  of finite scores, where the probabilities add up to 1.  Then there is a least such
  number \<open>m\<close>, it is positive, and \<open>TopP(p).Sample\<close> returns the vector in which the
  first \<open>m\<close> ranked positions keep their scores and every other position holds the
  sentinel: the surviving set is exactly that prefix, which has \<open>m\<close> elements.
\<close>

theorem TopP_minimal_prefix:
  assumes "sorts L" "fgt p (Fin 0)" "flt p (Fin 1)"
      and "computeSoftmax L logits = Inr probs"
      and "(\<exists>j\<le>length logits. fgt (mass L probs (take j (ranked L probs))) p) \<or>
           (exact L \<and> logits \<noteq> [] \<and> (\<forall>x\<in>set logits. isFinite x))"
  shows "\<exists>m out. 0 < m \<and> m \<le> length logits \<and>
           fgt (mass L probs (take m (ranked L probs))) p \<and>
           (\<forall>j<m. \<not> fgt (mass L probs (take j (ranked L probs))) p) \<and>
           TopP_Sample L p logits = \<lparr>mem = out, ret = Inr out\<rparr> \<and>
           length out = length logits \<and>
           {i. i < length logits \<and> out ! i \<noteq> NaN} = set (take m (ranked L probs)) \<and>
           card (set (take m (ranked L probs))) = m \<and>
           (\<forall>i<length logits.
              out ! i = (if i \<in> set (take m (ranked L probs)) then logits ! i else NaN))"
proof -
  let ?r = "ranked L probs"
  let ?P = "\<lambda>j. fgt (mass L probs (take j ?r)) p"
  have len: "length probs = length logits"
    using computeSoftmax_Inr[of L logits] assms(4) by simp
  have rlen: "length ?r = length logits" using sorts_length[OF assms(1), of probs] len by simp
  have cross: "\<exists>j\<le>length logits. ?P j"
    using assms(5)
  proof
    assume "\<exists>j\<le>length logits. ?P j"
    then show ?thesis .
  next
    assume e: "exact L \<and> logits \<noteq> [] \<and> (\<forall>x\<in>set logits. isFinite x)"
    let ?rs = "map (\<lambda>x. case x of Fin r \<Rightarrow> r | _ \<Rightarrow> 0) logits"
    from e have ex: "exact L" and fin: "\<forall>x\<in>set logits. isFinite x" by blast+
    from fin have l: "logits = map Fin ?rs" by (rule finite_scores)
    have ne: "?rs \<noteq> []" using e by simp
    have sm: "computeSoftmax L (map Fin ?rs) = Inr probs" using assms(4) l by simp
    have "mass L probs ?r = Fin 1" using assms(1) ex ne sm by (rule exact_mass_total)
    then have "mass L probs (take (length logits) ?r) = Fin 1" using rlen by simp
    then have "?P (length logits)" using assms(3) by (simp add: fgt_def)
    then show ?thesis by blast
  qed
  then obtain j0 where j0: "j0 \<le> length logits" "?P j0" by blast
  define m where "m = (LEAST j. ?P j)"
  have Pm: "?P m" unfolding m_def using j0(2) by (rule LeastI)
  have "m \<le> j0" unfolding m_def using j0(2) by (rule Least_le)
  then have mle: "m \<le> length logits" using j0(1) by simp
  have least: "\<not> ?P j" if "j < m" for j using that unfolding m_def by (rule not_less_Least)
  have "\<not> ?P 0" using assms(2) by (simp add: not_fgt_zero)
  then have mpos: "0 < m" using Pm by (cases m) auto
  let ?out = "exclude (drop m ?r) logits"
  have loop: "TopP_loop L p probs ?r (Fin 0) logits = ?out"
  proof (rule TopP_loop_cut)
    show "0 < m" by (rule mpos)
    show "m \<le> length ?r" using mle rlen by simp
    show "fgt (foldl (fadd L) (Fin 0) (map (\<lambda>i. probs ! i) (take m ?r))) p"
      using Pm by (simp add: mass_def)
    show "\<forall>j. 0 < j \<and> j < m \<longrightarrow>
            \<not> fgt (foldl (fadd L) (Fin 0) (map (\<lambda>i. probs ! i) (take j ?r))) p"
      using least by (simp add: mass_def)
  qed
  have out: "?out ! i = (if i \<in> set (take m ?r) then logits ! i else NaN)"
    if "i < length logits" for i
    using exclude_nth[OF that, of "drop m ?r"] ranked_take_drop[OF assms(1) len that, of m]
    by simp
  have nonan: "NaN \<notin> set logits"
    using assms(1,2,4) Pm by (rule crossing_sentinel_free)
  have inr: "i < length logits" if "i \<in> set (take m ?r)" for i
  proof -
    have "i \<in> set ?r" using that by (rule in_set_takeD)
    then show ?thesis using sorts_set[OF assms(1), of probs] len by simp
  qed
  have surv: "{i. i < length logits \<and> ?out ! i \<noteq> NaN} = set (take m ?r)"
  proof (intro set_eqI iffI)
    fix i assume "i \<in> {i. i < length logits \<and> ?out ! i \<noteq> NaN}"
    then have i: "i < length logits" "?out ! i \<noteq> NaN" by simp_all
    then show "i \<in> set (take m ?r)" using out[of i] by (simp split: if_splits)
  next
    fix i assume i: "i \<in> set (take m ?r)"
    have il: "i < length logits" using i by (rule inr)
    then have "logits ! i \<in> set logits" by (rule nth_mem)
    then have "logits ! i \<noteq> NaN" using nonan by auto
    then have "?out ! i \<noteq> NaN" using out[OF il] i by simp
    then show "i \<in> {i. i < length logits \<and> ?out ! i \<noteq> NaN}" using il by simp
  qed
  have "distinct (take m ?r)" using sorts_distinct[OF assms(1), of probs] by simp
  then have "card (set (take m ?r)) = length (take m ?r)" by (rule distinct_card)
  then have card: "card (set (take m ?r)) = m" using mle rlen by simp
  show ?thesis
  proof (intro exI[of _ m] exI[of _ ?out] conjI allI impI)
    show "0 < m" by (rule mpos)
    show "m \<le> length logits" by (rule mle)
    show "?P m" by (rule Pm)
    show "\<not> ?P j" if "j < m" for j using that by (rule least)
    show "TopP_Sample L p logits = \<lparr>mem = ?out, ret = Inr ?out\<rparr>"
      using TopP_unfold[OF assms(2,3,4)] loop by simp
    show "length ?out = length logits" by simp
    show "{i. i < length logits \<and> ?out ! i \<noteq> NaN} = set (take m ?r)" by (rule surv)
    show "card (set (take m ?r)) = m" by (rule card)
    show "?out ! i = (if i \<in> set (take m ?r) then logits ! i else NaN)"
      if "i < length logits" for i using that by (rule out)
  qed
qed

text \<open>
  The example of the specification: probabilities 0.5, 0.3, 0.15 and 0.05 with p = 0.6
  (as a float32, 5033165 / 8388608) keep the first two positions.
\<close>

lemma softmax_spec_example:
  "computeSoftmax exact_lib [Fin (ln (1 / 2)), Fin (ln (3 / 10)), Fin (ln (3 / 20)), Fin (ln (1 / 20))]
     = Inr [Fin (1 / 2), Fin (3 / 10), Fin (3 / 20), Fin (1 / 20)]"
  by (simp add: computeSoftmax_def floats_Sum_def floats_Scale_def)

lemma ranked_spec_example:
  "ranked exact_lib [Fin (1 / 2), Fin (3 / 10), Fin (3 / 20), Fin (1 / 20)] = [0, 1, 2, 3]"
  by (simp add: ranked_def insertionSortCmpFunc_def insertionSort_def Compare_def
        isNaN_def fgt_def upt_rec)

lemma TopP_spec_example:
  "TopP_Sample exact_lib (Fin (5033165 / 8388608))
       [Fin (ln (1 / 2)), Fin (ln (3 / 10)), Fin (ln (3 / 20)), Fin (ln (1 / 20))] =
     \<lparr>mem = [Fin (ln (1 / 2)), Fin (ln (3 / 10)), NaN, NaN],
      ret = Inr [Fin (ln (1 / 2)), Fin (ln (3 / 10)), NaN, NaN]\<rparr>"
  using ranked_spec_example
  by (simp add: TopP_Sample_def softmax_spec_example ranked_def fle_def fge_def fgt_def
        exclude_def Let_def)

lemma exact_exact_lib: "exact exact_lib"
  by (simp add: exact_def)

theorem TopP_minimal_prefix_witness:
  "sorts exact_lib \<and> fgt (Fin (5033165 / 8388608)) (Fin 0) \<and> flt (Fin (5033165 / 8388608)) (Fin 1) \<and>
   exact exact_lib \<and>
   computeSoftmax exact_lib [Fin (ln (1 / 2)), Fin (ln (3 / 10)), Fin (ln (3 / 20)), Fin (ln (1 / 20))]
     = Inr [Fin (1 / 2), Fin (3 / 10), Fin (3 / 20), Fin (1 / 20)] \<and>
   TopP_Sample exact_lib (Fin (5033165 / 8388608))
       [Fin (ln (1 / 2)), Fin (ln (3 / 10)), Fin (ln (3 / 20)), Fin (ln (1 / 20))] =
     \<lparr>mem = [Fin (ln (1 / 2)), Fin (ln (3 / 10)), NaN, NaN],
      ret = Inr [Fin (ln (1 / 2)), Fin (ln (3 / 10)), NaN, NaN]\<rparr>"
  using TopP_minimal_prefix[OF sorts_exact_lib, of "Fin (5033165 / 8388608)"
          "[Fin (ln (1 / 2)), Fin (ln (3 / 10)), Fin (ln (3 / 20)), Fin (ln (1 / 20))]"
          "[Fin (1 / 2), Fin (3 / 10), Fin (3 / 20), Fin (1 / 20)]"]
        sorts_exact_lib exact_exact_lib softmax_spec_example TopP_spec_example
  by (simp add: fgt_def)

text \<open>
  The specification's wording, for every finite vector, fails on the empty vector,
  where nothing survives.  It
  also fails where the exponential overflows: on [1000.0, 0.0] the probabilities come
  out as [NaN, 0], the accumulated mass never exceeds p = 0.5, and both positions
  survive although the first alone carries (in exact terms) all the probability.
\<close>

lemma overflow_lib_simps [simp]:
  "rnd overflow_lib = Fin"
  "expf overflow_lib = (\<lambda>a. if 709.782712893383973096 < a then PInf else Fin (exp a))"
  "SortFunc overflow_lib = insertionSortCmpFunc"
  by (simp_all add: overflow_lib_def)

lemma softmax_overflow:
  "computeSoftmax overflow_lib [Fin 1000, Fin 0] = Inr [NaN, Fin 0]"
  by (simp add: computeSoftmax_def floats_Sum_def floats_Scale_def)

lemma ranked_overflow: "ranked overflow_lib [NaN, Fin 0] = [1, 0]"
  by (simp add: ranked_def insertionSortCmpFunc_def insertionSort_def Compare_def
        isNaN_def fgt_def upt_rec)

theorem TopP_minimal_prefix_counterexample:
  "TopP_Sample exact_lib (Fin (1 / 2)) [] = \<lparr>mem = [], ret = Inr []\<rparr> \<and>
   filter (\<lambda>x. x \<noteq> NaN) ([] :: f64 list) = [] \<and>
   computeSoftmax overflow_lib [Fin 1000, Fin 0] = Inr [NaN, Fin 0] \<and>
   TopP_Sample overflow_lib (Fin (1 / 2)) [Fin 1000, Fin 0] =
     \<lparr>mem = [Fin 1000, Fin 0], ret = Inr [Fin 1000, Fin 0]\<rparr> \<and>
   \<not> fgt (mass overflow_lib [NaN, Fin 0] (take 0 (ranked overflow_lib [NaN, Fin 0]))) (Fin (1 / 2)) \<and>
   \<not> fgt (mass overflow_lib [NaN, Fin 0] (take 1 (ranked overflow_lib [NaN, Fin 0]))) (Fin (1 / 2)) \<and>
   \<not> fgt (mass overflow_lib [NaN, Fin 0] (take 2 (ranked overflow_lib [NaN, Fin 0]))) (Fin (1 / 2))"
proof -
  have "TopP_Sample exact_lib (Fin (1 / 2)) [] = \<lparr>mem = [], ret = Inr []\<rparr>"
    by (simp add: TopP_Sample_def computeSoftmax_def floats_Scale_def fle_def fge_def
          insertionSortCmpFunc_def insertionSort_def Let_def)
  moreover have "TopP_Sample overflow_lib (Fin (1 / 2)) [Fin 1000, Fin 0] =
     \<lparr>mem = [Fin 1000, Fin 0], ret = Inr [Fin 1000, Fin 0]\<rparr>"
    using ranked_overflow
    by (simp add: TopP_Sample_def softmax_overflow ranked_def fle_def fge_def fgt_def Let_def)
  ultimately show ?thesis
    by (simp add: softmax_overflow ranked_overflow mass_def fgt_def)
qed

subsection \<open>Temperature\<close>

lemma MaxIdx_loop_shift:
  "MaxIdx_loop (map (\<lambda>r. Fin (r + c)) rs) i NaN ind = MaxIdx_loop (map Fin rs) i NaN ind \<and>
   (\<forall>m. MaxIdx_loop (map (\<lambda>r. Fin (r + c)) rs) i (Fin (m + c)) ind =
        MaxIdx_loop (map Fin rs) i (Fin m) ind)"
proof (induction rs arbitrary: i ind)
  case Nil
  show ?case by simp
next
  case (Cons r rs)
  show ?case using Cons.IH by (simp add: isNaN_def fgt_def)
qed

lemma MaxIdx_loop_bound:
  "vs \<noteq> [] \<Longrightarrow> MaxIdx_loop vs 0 NaN 0 < length vs"
  using MaxIdx_loop_spec[of vs 0 NaN 0] by auto

lemma Temperature_unfold:
  assumes "fgt t (Fin 0)" "fle t (Fin 2)" "logits \<noteq> []"
  shows "Temperature_Sample L t logits =
          \<lparr>mem = map (\<lambda>x. fdiv L (fsub L x (logits ! MaxIdx_loop logits 0 NaN 0))
                            (math_Max t (rnd L (1 / 10 ^ 7)))) logits,
           ret = Inr (map (\<lambda>x. fdiv L (fsub L x (logits ! MaxIdx_loop logits 0 NaN 0))
                            (math_Max t (rnd L (1 / 10 ^ 7)))) logits)\<rparr>"
proof -
  have "\<not> (flt t (Fin 0) \<or> fgt t (Fin 2))"
    using assms(1,2) by (cases t) (auto simp: fgt_def fle_def)
  then show ?thesis
    using assms(3) by (simp add: Temperature_Sample_def floats_Max_def MaxIdx_def Let_def)
qed

lemma Temperature_shift:
  assumes "fgt t (Fin 0)" "fle t (Fin 2)"
  shows "ret (Temperature_Sample L t (map (\<lambda>r. Fin (r + c)) rs)) =
         ret (Temperature_Sample L t (map Fin rs))"
proof (cases "rs = []")
  case True
  then show ?thesis by (simp add: Temperature_Sample_def floats_Max_def MaxIdx_def)
next
  case False
  let ?k = "MaxIdx_loop (map Fin rs) 0 NaN 0"
  have k: "MaxIdx_loop (map (\<lambda>r. Fin (r + c)) rs) 0 NaN 0 = ?k"
    using MaxIdx_loop_shift[of c rs 0 0] by simp
  have kb: "?k < length rs" using MaxIdx_loop_bound[of "map Fin rs"] False by simp
  have ne: "map (\<lambda>r. Fin (r + c)) rs \<noteq> []" "map Fin rs \<noteq> []" using False by simp_all
  show ?thesis
    unfolding Temperature_unfold[OF assms ne(1)] Temperature_unfold[OF assms ne(2)] k
    using kb by simp
qed

text \<open>
  C7, as the code has it.  Take a temperature in (0,2], a vector of finite scores and
  a constant \<open>c\<close> whose addition to each score is exact (the float64 sum is the real
  sum).  Then \<open>Temperature(t).Sample\<close> returns on the shifted vector what it returns on
  the vector itself: the maximum shifts with the scores and the differences are the
  same numbers, whatever the rounding.  So the softmax of the two results is the
  same, and for a non-empty vector it is a vector of the same length.
\<close>

theorem Temperature_shift_invariant:
  assumes "fgt t (Fin 0)" "fle t (Fin 2)"
      and "\<forall>r\<in>set rs. fadd L (Fin r) (Fin c) = Fin (r + c)"
  shows "ret (Temperature_Sample L t (map (\<lambda>x. fadd L x (Fin c)) (map Fin rs))) =
           ret (Temperature_Sample L t (map Fin rs)) \<and>
         Sample L (map (\<lambda>x. fadd L x (Fin c)) (map Fin rs)) [Temperature t, Softmax] =
           Sample L (map Fin rs) [Temperature t, Softmax] \<and>
         (rs \<noteq> [] \<longrightarrow>
            (\<exists>ps. Sample L (map Fin rs) [Temperature t, Softmax] = Inr ps \<and>
                  length ps = length rs))"
proof (intro conjI impI)
  have t0: "t \<noteq> Fin 0" using assms(1) by (auto simp: fgt_def)
  have sh: "map (\<lambda>x. fadd L x (Fin c)) (map Fin rs) = map (\<lambda>r. Fin (r + c)) rs"
    using assms(3) by simp
  show eq: "ret (Temperature_Sample L t (map (\<lambda>x. fadd L x (Fin c)) (map Fin rs))) =
        ret (Temperature_Sample L t (map Fin rs))"
    unfolding sh using assms(1,2) by (rule Temperature_shift)
  show "Sample L (map (\<lambda>x. fadd L x (Fin c)) (map Fin rs)) [Temperature t, Softmax] =
        Sample L (map Fin rs) [Temperature t, Softmax]"
    using t0 eq by simp
  assume ne: "rs \<noteq> []"
  then have "map Fin rs \<noteq> []" by simp
  note u = Temperature_unfold[OF assms(1,2) this, of L]
  show "\<exists>ps. Sample L (map Fin rs) [Temperature t, Softmax] = Inr ps \<and> length ps = length rs"
    using t0 computeSoftmax_Inr[of L "map (\<lambda>x. fdiv L (fsub L x (map Fin rs ! MaxIdx_loop (map Fin rs) 0 NaN 0))
                            (math_Max t (rnd L (1 / 10 ^ 7)))) (map Fin rs)"]
    by (auto simp: u softmax_Sample_def)
qed

text \<open>
  With the rounding of float64 near 1e17: the scores 0 and 16 shifted by 1e17 are
  exact (1e17 and 1e17 + 16 are multiples of 16) and the result is the same.
\<close>

lemma absorbing_lib_simps [simp]:
  "expf absorbing_lib = (\<lambda>a. Fin (exp a))"
  "SortFunc absorbing_lib = insertionSortCmpFunc"
  "Take absorbing_lib = first_positive"
  by (simp_all add: absorbing_lib_def)

lemma rnd_absorbing_small: "\<bar>r\<bar> < 2 ^ 56 \<Longrightarrow> rnd absorbing_lib r = Fin r"
  by (simp add: absorbing_lib_def)

lemma rnd_absorbing_1e17: "rnd absorbing_lib 100000000000000000 = Fin 100000000000000000"
  by (simp add: absorbing_lib_def round_half_even_def)

lemma rnd_absorbing_1e17_1: "rnd absorbing_lib 100000000000000001 = Fin 100000000000000000"
  by (simp add: absorbing_lib_def round_half_even_def)

lemma rnd_absorbing_1e17_16: "rnd absorbing_lib 100000000000000016 = Fin 100000000000000016"
  by (simp add: absorbing_lib_def round_half_even_def)

lemma Temperature_0_16:
  "Temperature_Sample absorbing_lib (Fin 1) [Fin 0, Fin 16] =
     \<lparr>mem = [Fin (- 16), Fin 0], ret = Inr [Fin (- 16), Fin 0]\<rparr>"
  by (simp add: Temperature_Sample_def floats_Max_def MaxIdx_def isNaN_def fgt_def math_Max_def
        Let_def rnd_absorbing_small)

theorem Temperature_shift_invariant_witness:
  "fgt (Fin 1) (Fin 0) \<and> fle (Fin 1) (Fin 2) \<and>
   fadd absorbing_lib (Fin 0) (Fin (10 ^ 17)) = Fin (0 + 10 ^ 17) \<and>
   fadd absorbing_lib (Fin 16) (Fin (10 ^ 17)) = Fin (16 + 10 ^ 17) \<and>
   ret (Temperature_Sample absorbing_lib (Fin 1)
          (map (\<lambda>x. fadd absorbing_lib x (Fin (10 ^ 17))) (map Fin [0, 16])))
     = Inr [Fin (- 16), Fin 0] \<and>
   ret (Temperature_Sample absorbing_lib (Fin 1) (map Fin [0, 16])) = Inr [Fin (- 16), Fin 0]"
  using Temperature_shift_invariant[of "Fin 1" "[0, 16]" absorbing_lib "10 ^ 17"]
        Temperature_0_16
  by (simp add: fgt_def fle_def rnd_absorbing_1e17 rnd_absorbing_1e17_16 del: list.map)
     (simp add: rnd_absorbing_1e17 rnd_absorbing_1e17_16)

text \<open>
  The specification's wording, for every constant, fails where the shift is rounded.
  Shifting [0.0, 1.0] by 1e17 gives [1e17, 1e17], since 1e17 + 1 is not a float64 and
  rounds to 1e17.  Temperature(1) returns [0, 0] on the shifted vector and [-1, 0] on
  the original, and the softmax of the first is [0.5, 0.5] while that of the second
  is not.
\<close>

lemma shifted_0_1:
  "map (\<lambda>x. fadd absorbing_lib x (Fin 100000000000000000)) [Fin 0, Fin 1] =
     [Fin 100000000000000000, Fin 100000000000000000]"
  by (simp add: rnd_absorbing_1e17 rnd_absorbing_1e17_1)

lemma Temperature_shifted_0_1:
  "Temperature_Sample absorbing_lib (Fin 1) [Fin 100000000000000000, Fin 100000000000000000] =
     \<lparr>mem = [Fin 0, Fin 0], ret = Inr [Fin 0, Fin 0]\<rparr>"
  by (simp add: Temperature_Sample_def floats_Max_def MaxIdx_def isNaN_def fgt_def math_Max_def
        Let_def rnd_absorbing_small)

lemma Temperature_0_1:
  "Temperature_Sample absorbing_lib (Fin 1) [Fin 0, Fin 1] =
     \<lparr>mem = [Fin (- 1), Fin 0], ret = Inr [Fin (- 1), Fin 0]\<rparr>"
  by (simp add: Temperature_Sample_def floats_Max_def MaxIdx_def isNaN_def fgt_def math_Max_def
        Let_def rnd_absorbing_small)

lemma softmax_0_0:
  "computeSoftmax absorbing_lib [Fin 0, Fin 0] = Inr [Fin (1 / 2), Fin (1 / 2)]"
  by (simp add: computeSoftmax_def floats_Sum_def floats_Scale_def rnd_absorbing_small)

lemma softmax_m1_0:
  "computeSoftmax absorbing_lib [Fin (- 1), Fin 0] =
     Inr [Fin (exp (- 1) * (1 / (exp (- 1) + 1))), Fin (1 / (exp (- 1) + 1))]"
proof -
  define e :: real where "e = exp (- 1)"
  have e: "0 < e" "e < 1" by (simp_all add: e_def)
  define s where "s = 1 / (e + 1)"
  have s: "0 < s" "s < 1" using e by (simp_all add: s_def)
  have es: "0 < e * s" "e * s < 1"
  proof -
    show "0 < e * s" using e s by simp
    have "e * s < 1 * 1" using e s by (intro mult_strict_mono) simp_all
    then show "e * s < 1" by simp
  qed
  have r1: "rnd absorbing_lib e = Fin e" using e by (intro rnd_absorbing_small) simp
  have r2: "rnd absorbing_lib (e + 1) = Fin (e + 1)" using e by (intro rnd_absorbing_small) simp
  have r3: "rnd absorbing_lib s = Fin s" using s by (intro rnd_absorbing_small) simp
  have r4: "rnd absorbing_lib (e * s) = Fin (e * s)" using es by (intro rnd_absorbing_small) simp
  have ne: "e + 1 \<noteq> 0" using e by simp
  have "computeSoftmax absorbing_lib [Fin (- 1), Fin 0] = Inr [Fin (e * s), Fin s]"
    using ne by (simp add: computeSoftmax_def floats_Sum_def floats_Scale_def r1 r2
         flip: e_def) (simp add: r3 r4 flip: s_def)
  then show ?thesis by (simp add: e_def s_def)
qed

theorem Temperature_shift_invariant_counterexample:
  "map (\<lambda>x. fadd absorbing_lib x (Fin (10 ^ 17))) [Fin 0, Fin 1] = [Fin (10 ^ 17), Fin (10 ^ 17)] \<and>
   ret (Temperature_Sample absorbing_lib (Fin 1)
          (map (\<lambda>x. fadd absorbing_lib x (Fin (10 ^ 17))) [Fin 0, Fin 1])) = Inr [Fin 0, Fin 0] \<and>
   ret (Temperature_Sample absorbing_lib (Fin 1) [Fin 0, Fin 1]) = Inr [Fin (- 1), Fin 0] \<and>
   computeSoftmax absorbing_lib [Fin 0, Fin 0] = Inr [Fin (1 / 2), Fin (1 / 2)] \<and>
   computeSoftmax absorbing_lib [Fin (- 1), Fin 0] \<noteq> computeSoftmax absorbing_lib [Fin 0, Fin 0] \<and>
   Sample absorbing_lib (map (\<lambda>x. fadd absorbing_lib x (Fin (10 ^ 17))) [Fin 0, Fin 1])
       [Temperature (Fin 1), Softmax] \<noteq>
   Sample absorbing_lib [Fin 0, Fin 1] [Temperature (Fin 1), Softmax]"
proof -
  have ne: "computeSoftmax absorbing_lib [Fin (- 1), Fin 0] \<noteq>
            computeSoftmax absorbing_lib [Fin 0, Fin 0]"
    by (simp add: softmax_m1_0 softmax_0_0)
  show ?thesis
    using ne
    by (simp add: shifted_0_1 Temperature_shifted_0_1 Temperature_0_1 softmax_0_0
          softmax_m1_0 softmax_Sample_def del: list.map)
qed

end
